theory Spec2Isabelle
  imports Main "HOL-Library.Word" "HOL-Library.Multiset"
begin

unbundle bit_operations_syntax

section \<open>Common types\<close>

text \<open>
  The enumerations of the public header, as the sources use them:
  \<^verbatim>\<open>VarType\<close> tags the element type of an array, \<^verbatim>\<open>ReduceOp\<close> the operation of a
  reduction (its names are the entries of \<^verbatim>\<open>reduction_name\<close>: none, sum, mul, min, max,
  and, or; \<^verbatim>\<open>Count\<close> closes the enumeration), \<^verbatim>\<open>JitBackend\<close> the two backends.
\<close>

datatype VarType = Void | Bool | Int8 | UInt8 | Int16 | UInt16 | Int32 | UInt32
  | Int64 | UInt64 | Pointer | Float16 | Float32 | Float64

datatype ReduceOp = Op_None | Op_Add | Op_Mul | Op_Min | Op_Max | Op_And | Op_Or | Op_Count

datatype JitBackend = CUDA | LLVM

text \<open>
  A fault ends a call early. \<^verbatim>\<open>jitc_raise\<close> throws an exception that the caller may
  catch, \<^verbatim>\<open>jitc_fail\<close> reports a fatal error; both carry their message. \<open>Trap\<close> stands
  for a division by zero, which the hardware traps.
\<close>

datatype fault = Raise string | Fail string | Trap

section \<open>Kernel launch: loading a compiled module (\<^verbatim>\<open>jitc_run\<close>)\<close>

text \<open>
  \<^verbatim>\<open>jitc_run\<close> looks the kernel up in the cache; on a miss it loads the kernel from disk
  or compiles it, links it, and stores it in the cache; then it launches the kernel.
  The compilers, the disk cache and the driver are outside the sources. Their calls are
  recorded in the order the code makes them, and their answers are inputs of the model:
  the field \<open>driver\<close> of the state holds the return codes of the driver's next calls.
\<close>

type_synonym CUresult = int

definition CUDA_SUCCESS :: CUresult where
  "CUDA_SUCCESS = 0"

definition CUDA_ERROR_OUT_OF_MEMORY :: CUresult where
  "CUDA_ERROR_OUT_OF_MEMORY = 2"

datatype call =
    Call_jitc_kernel_load
  | Call_jitc_cuda_compile
  | Call_jitc_optix_compile
  | Call_jitc_llvm_compile
  | Call_jitc_kernel_write
  | Call_jitc_llvm_disasm
  | Call_cuModuleLoadData
  | Call_jitc_malloc_trim
  | Call_cuModuleGetFunction
  | Call_cuOccupancyMaxPotentialBlockSize
  | Call_cuFuncSetAttribute
  | Call_cuLaunchKernel
  | Call_jitc_optix_launch
  | Call_task_submit_dep

record Kernel =
  kernel_data :: "nat option"
  kernel_size :: nat
  cuda_block_size :: nat

type_synonym KernelKey = "string \<times> nat \<times> nat"

record run_state =
  kernel_cache :: "KernelKey \<Rightarrow> Kernel option"
  kernel_hits :: nat
  kernel_soft_misses :: nat
  kernel_hard_misses :: nat
  kernel_launches :: nat
  calls :: "call list"
  driver :: "CUresult list"

text \<open>
  What the collaborators of \<^verbatim>\<open>jitc_run\<close> answer: the kernel found on disk by
  \<^verbatim>\<open>jitc_kernel_load\<close> (if any), the kernel a compiler produces, whether
  \<^verbatim>\<open>jitc_optix_compile\<close> reports a cache hit, and the block size the occupancy query
  returns.
\<close>

record externals =
  disk_kernel :: "Kernel option"
  compiled_kernel :: Kernel
  optix_cache_hit :: bool
  occupancy_block_size :: nat

definition log_call :: "call \<Rightarrow> run_state \<Rightarrow> run_state" where
  "log_call c s = s\<lparr>calls := calls s @ [c]\<rparr>"

text \<open>A call of the driver: it is recorded, and the driver's next answer is its result
  (success once the list of answers is used up).\<close>

definition cu_call :: "call \<Rightarrow> run_state \<Rightarrow> CUresult \<times> run_state" where
  "cu_call c s =
     (case driver s of
        [] \<Rightarrow> (CUDA_SUCCESS, log_call c s)
      | r # rs \<Rightarrow> (r, (log_call c s)\<lparr>driver := rs\<rparr>))"

text \<open>
  Modelled from the spec: \<^verbatim>\<open>cuda_check\<close> is the macro of \<^verbatim>\<open>cuda_api.h\<close> that expands
  to \<^verbatim>\<open>cuda_check_impl\<close>, whose body is not among the sources. The specification says
  that a driver failure that remains surfaces as fatal: every return code other than
  success is a fatal error.
\<close>

definition cuda_check :: "CUresult \<Rightarrow> fault option" where
  "cuda_check ret =
     (if ret = CUDA_SUCCESS then None else Some (Fail ''cuda_check(): API error''))"

text \<open>A driver call under \<^verbatim>\<open>cuda_check\<close>.\<close>

definition cu_checked :: "call \<Rightarrow> run_state \<Rightarrow> fault option \<times> run_state" where
  "cu_checked c s = (let (ret, s1) = cu_call c s in (cuda_check ret, s1))"

text \<open>
  The module load of \<^verbatim>\<open>jitc_run\<close>:
  \<^verbatim>\<open>ret = cuModuleLoadData(...); if (ret == CUDA_ERROR_OUT_OF_MEMORY) {
  jitc_malloc_trim(true, true); ret = cuModuleLoadData(...); } cuda_check(ret);\<close>
\<close>

definition load_module :: "run_state \<Rightarrow> CUresult \<times> run_state" where
  "load_module s =
     (let (ret, s1) = cu_call Call_cuModuleLoadData s in
      if ret = CUDA_ERROR_OUT_OF_MEMORY
      then cu_call Call_cuModuleLoadData (log_call Call_jitc_malloc_trim s1)
      else (ret, s1))"

text \<open>The steps after the module is loaded: the entry point, the occupancy query and the
  two function attributes, each under \<^verbatim>\<open>cuda_check\<close>; the first fault ends the call.\<close>

fun cu_checked_seq :: "call list \<Rightarrow> run_state \<Rightarrow> fault option \<times> run_state" where
  "cu_checked_seq [] s = (None, s)"
| "cu_checked_seq (c # cs) s =
     (case cu_checked c s of
        (Some e, s1) \<Rightarrow> (Some e, s1)
      | (None, s1) \<Rightarrow> cu_checked_seq cs s1)"

text \<open>Linking on the CUDA backend without OptiX (the branch \<^verbatim>\<open>else if (!uses_optix)\<close>).
  It returns the kernel with its block size set and its image freed.\<close>

definition link_cuda :: "externals \<Rightarrow> Kernel \<Rightarrow> run_state \<Rightarrow> (fault + Kernel) \<times> run_state" where
  "link_cuda ext kern s =
     (let (ret, s1) = load_module s in
      case cuda_check ret of
        Some e \<Rightarrow> (Inl e, s1)
      | None \<Rightarrow>
          (case cu_checked_seq [Call_cuModuleGetFunction, Call_cuOccupancyMaxPotentialBlockSize,
                                Call_cuFuncSetAttribute, Call_cuFuncSetAttribute] s1 of
             (Some e, s2) \<Rightarrow> (Inl e, s2)
           | (None, s2) \<Rightarrow>
               (Inr (kern\<lparr>cuda_block_size := occupancy_block_size ext, kernel_data := None\<rparr>), s2)))"

text \<open>Obtaining the kernel on a cache miss: from disk, or from the compiler of the
  backend. The result is the flag \<^verbatim>\<open>cache_hit\<close> and the kernel. \<open>optix_enabled\<close> is the
  compile-time switch \<^verbatim>\<open>ENOKI_JIT_ENABLE_OPTIX\<close>.\<close>

definition build_kernel ::
  "externals \<Rightarrow> bool \<Rightarrow> JitBackend \<Rightarrow> bool \<Rightarrow> run_state \<Rightarrow> (fault + bool \<times> Kernel) \<times> run_state" where
  "build_kernel ext optix_enabled backend uses_optix s =
     (let (cache_hit, s1) =
            (if \<not> uses_optix
             then (disk_kernel ext \<noteq> None, log_call Call_jitc_kernel_load s)
             else (False, s))
      in if cache_hit then (Inr (True, the (disk_kernel ext)), s1)
         else
           (let r = (if backend = CUDA then
                       (if \<not> uses_optix
                        then (Inr (False, compiled_kernel ext), log_call Call_jitc_cuda_compile s1)
                        else if optix_enabled
                        then (Inr (optix_cache_hit ext, compiled_kernel ext),
                              log_call Call_jitc_optix_compile s1)
                        else (Inl (Fail ''jit_run(): OptiX support was not enabled in Enoki-JIT.''), s1))
                     else (Inr (False, compiled_kernel ext), log_call Call_jitc_llvm_compile s1))
            in case r of
                 (Inl e, s2) \<Rightarrow> (Inl e, s2)
               | (Inr (hit, kern), s2) \<Rightarrow>
                   (Inr (hit, kern),
                    if kernel_data kern \<noteq> None then log_call Call_jitc_kernel_write s2 else s2)))"

text \<open>The launch at the end of \<^verbatim>\<open>jitc_run\<close>.\<close>

definition launch :: "bool \<Rightarrow> JitBackend \<Rightarrow> bool \<Rightarrow> run_state \<Rightarrow> fault option \<times> run_state" where
  "launch optix_enabled backend uses_optix s =
     (if backend = CUDA then
        (if optix_enabled \<and> uses_optix then (None, log_call Call_jitc_optix_launch s)
         else if \<not> uses_optix then cu_checked Call_cuLaunchKernel s
         else (None, s))
      else (None, log_call Call_task_submit_dep s))"

definition jitc_run ::
  "externals \<Rightarrow> bool \<Rightarrow> JitBackend \<Rightarrow> nat \<Rightarrow> bool \<Rightarrow> nat \<Rightarrow> string \<Rightarrow> run_state
     \<Rightarrow> fault option \<times> run_state" where
  "jitc_run ext optix_enabled backend device uses_optix pco_flags buffer s =
     (let flags = (if optix_enabled \<and> uses_optix then pco_flags else 0);
          kernel_key = (buffer, device, flags)
      in case kernel_cache s kernel_key of
           Some kern \<Rightarrow>
             launch optix_enabled backend uses_optix
               (s\<lparr>kernel_hits := kernel_hits s + 1, kernel_launches := kernel_launches s + 1\<rparr>)
         | None \<Rightarrow>
             (case build_kernel ext optix_enabled backend uses_optix s of
                (Inl e, s1) \<Rightarrow> (Some e, s1)
              | (Inr (cache_hit, kern), s1) \<Rightarrow>
                  (let r = (if backend = LLVM then (Inr kern, log_call Call_jitc_llvm_disasm s1)
                            else if \<not> uses_optix then link_cuda ext kern s1
                            else (Inr kern, s1))
                   in case r of
                        (Inl e, s2) \<Rightarrow> (Some e, s2)
                      | (Inr kern', s2) \<Rightarrow>
                          (let s3 = s2\<lparr>kernel_cache := (kernel_cache s2)(kernel_key \<mapsto> kern')\<rparr>;
                               s4 = (if cache_hit
                                     then s3\<lparr>kernel_soft_misses := kernel_soft_misses s3 + 1\<rparr>
                                     else s3\<lparr>kernel_hard_misses := kernel_hard_misses s3 + 1\<rparr>)
                           in launch optix_enabled backend uses_optix
                                (s4\<lparr>kernel_launches := kernel_launches s4 + 1\<rparr>)))))"

section \<open>The loop builder (\<^verbatim>\<open>struct Loop\<close>)\<close>

text \<open>
  The loop builder holds pointers to the identifier slots of the caller's loop variables.
  The slots are a store from addresses to identifiers. The runtime behind the \<^verbatim>\<open>jit_\<close>
  interface is outside the sources: the model records every call of it, keeps the one
  flag and the one counter that the builder reads back, and takes the identifiers that
  the runtime returns from the record \<open>jit_externals\<close> (each answer may depend on the
  calls made so far).
\<close>

datatype jit_call =
    Jit_side_effects_rollback "32 word"
  | Jit_set_flag_PostponeSideEffects int
  | Jit_var_new_placeholder "32 word"
  | Jit_var_new_op_3_Select "32 word" "32 word" "32 word"
  | Jit_var_dec_ref_ext "32 word"
  | Jit_var_inc_ref_ext "32 word"
  | Jit_var_mask_push "32 word"
  | Jit_var_mask_pop
  | Jit_var_schedule "32 word"
  | Jit_eval
  | Jit_var_loop string "32 word" "32 word" "32 word list" "32 word list" "32 word"
  | Jit_log_Warn string

record jit_env =
  slots :: "nat \<Rightarrow> 32 word"
  flag_PostponeSideEffects :: int
  side_effects_scheduled :: "32 word"
  jit_calls :: "jit_call list"

record jit_externals =
  var_new_placeholder :: "jit_call list \<Rightarrow> 32 word \<Rightarrow> 32 word"
  var_new_op_3_Select :: "jit_call list \<Rightarrow> 32 word \<Rightarrow> 32 word \<Rightarrow> 32 word \<Rightarrow> 32 word"
  var_loop_out :: "jit_call list \<Rightarrow> nat \<Rightarrow> 32 word"
  var_any :: "jit_call list \<Rightarrow> 32 word \<Rightarrow> bool"

record Loop =
  m_name :: string
  m_index_in :: "32 word list"
  m_index_body :: "32 word list"
  m_index_out :: "32 word list"
  m_index_p :: "nat list"
  m_cond :: "32 word"
  m_state :: "32 word"
  m_se_offset :: "32 word"
  m_se_flag :: int
  m_size :: nat
  m_record :: bool

type_synonym loop_state = "Loop \<times> jit_env"

definition jit :: "jit_call \<Rightarrow> jit_env \<Rightarrow> jit_env" where
  "jit c env = env\<lparr>jit_calls := jit_calls env @ [c]\<rparr>"

definition jit_set_flag :: "int \<Rightarrow> jit_env \<Rightarrow> jit_env" where
  "jit_set_flag v env =
     (jit (Jit_set_flag_PostponeSideEffects v) env)\<lparr>flag_PostponeSideEffects := v\<rparr>"

text \<open>The constructor without loop variables: \<^verbatim>\<open>m_state(0), m_se_offset((uint32_t) -1),
  m_size(0), m_record(jit_flag(JitFlag::LoopRecord))\<close>; \<^verbatim>\<open>m_se_flag\<close> is not
  initialised, its content is the argument \<open>garbage\<close>.\<close>

definition Loop_new :: "string \<Rightarrow> bool \<Rightarrow> int \<Rightarrow> Loop" where
  "Loop_new name flag_LoopRecord garbage =
     \<lparr>m_name = name, m_index_in = [], m_index_body = [], m_index_out = [], m_index_p = [],
      m_cond = 0, m_state = 0, m_se_offset = - 1, m_se_flag = garbage, m_size = 0,
      m_record = flag_LoopRecord\<rparr>"

text \<open>\<^verbatim>\<open>put(value)\<close>: \<open>ptr\<close> is \<^verbatim>\<open>value.index_ptr()\<close> and \<open>vsize\<close> is \<^verbatim>\<open>value.size()\<close>.
  The two vectors grow before the sizes are compared.\<close>

definition put :: "nat \<Rightarrow> nat \<Rightarrow> loop_state \<Rightarrow> (fault + unit) \<times> loop_state" where
  "put ptr vsize s =
     (case s of (l, env) \<Rightarrow>
        (let l1 = l\<lparr>m_index_p := m_index_p l @ [ptr],
                     m_index_in := m_index_in l @ [slots env ptr]\<rparr>
         in if m_size l1 \<noteq> 0 \<and> vsize \<noteq> 1 \<and> vsize \<noteq> m_size l1
            then (Inl (Raise ''Loop.put(): loop variables have inconsistent sizes!''), (l1, env))
            else (Inr (), (if vsize > m_size l1 then l1\<lparr>m_size := vsize\<rparr> else l1, env))))"

text \<open>\<^verbatim>\<open>step()\<close>: every slot receives a fresh placeholder of its identifier.\<close>

definition step_var :: "jit_externals \<Rightarrow> nat \<Rightarrow> jit_env \<Rightarrow> jit_env" where
  "step_var ext p env =
     (let index = slots env p;
          next = var_new_placeholder ext (jit_calls env) index;
          env1 = jit (Jit_var_dec_ref_ext index) (jit (Jit_var_new_placeholder index) env)
      in env1\<lparr>slots := (slots env1)(p := next)\<rparr>)"

definition step :: "jit_externals \<Rightarrow> loop_state \<Rightarrow> loop_state" where
  "step ext s = (case s of (l, env) \<Rightarrow> (l, fold (step_var ext) (m_index_p l) env))"


text \<open>The write-back loop of the second \<^verbatim>\<open>cond()\<close>:
  \<^verbatim>\<open>uint32_t &index = *m_index_p[i]; jit_var_dec_ref_ext(index); index = m_index_out[i];\<close>\<close>

definition write_back :: "32 word list \<Rightarrow> nat \<times> nat \<Rightarrow> jit_env \<Rightarrow> jit_env" where
  "write_back out ip env =
     (case ip of (i, p) \<Rightarrow>
        (let env1 = jit (Jit_var_dec_ref_ext (slots env p)) env
         in env1\<lparr>slots := (slots env1)(p := out ! i)\<rparr>))"

text \<open>\<^verbatim>\<open>cond_record(cond)\<close>; \<open>cond\<close> is the identifier of the mask.
  \<^verbatim>\<open>switch (m_state++)\<close> advances the state in every case. \<^verbatim>\<open>jit_var_loop\<close> receives
  \<^verbatim>\<open>m_index_out.data()\<close> twice: as the identifiers at the end of the body, and as the
  place where it writes the identifiers of the loop's results.\<close>

definition cond_record :: "jit_externals \<Rightarrow> 32 word \<Rightarrow> loop_state \<Rightarrow> (fault + bool) \<times> loop_state" where
  "cond_record ext cond s =
     (case s of (l, env) \<Rightarrow>
        (let l0 = l\<lparr>m_state := m_state l + 1\<rparr> in
         if m_state l = 0 then (Inl (Raise ''Loop(): must be initialized first!''), (l0, env))
         else if m_state l = 1 then
           (case step ext (l0\<lparr>m_cond := cond\<rparr>, env) of (l1, env1) \<Rightarrow>
              (Inr True, (l1\<lparr>m_index_body := m_index_body l1 @ map (slots env1) (m_index_p l1)\<rparr>, env1)))
         else if m_state l = 2 then
           (let n = length (m_index_p l0);
                out = m_index_out l0 @ map (slots env) (m_index_p l0);
                env1 = jit (Jit_var_loop (m_name l0) (m_cond l0) (word_of_nat n) (m_index_body l0)
                              out (m_se_offset l0)) env;
                out' = map (var_loop_out ext (jit_calls env)) [0..<n] @ drop n out;
                env2 = fold (write_back out') (zip [0..<n] (m_index_p l0)) env1
            in (Inr False, (l0\<lparr>m_index_out := out'\<rparr>, jit_set_flag (m_se_flag l0) env2)))
         else (Inl (Raise ''Loop(): invalid state!''), (l0, env))))"

text \<open>\<^verbatim>\<open>cond_wavefront(cond)\<close>.\<close>

definition select_var :: "jit_externals \<Rightarrow> Loop \<Rightarrow> nat \<times> nat \<Rightarrow> jit_env \<Rightarrow> jit_env" where
  "select_var ext l ip env =
     (case ip of (i, p) \<Rightarrow>
        (let i1 = slots env p; i2 = m_index_out l ! i;
             r = var_new_op_3_Select ext (jit_calls env) (m_cond l) i1 i2;
             env1 = jit (Jit_var_dec_ref_ext i2) (jit (Jit_var_dec_ref_ext i1)
                      (jit (Jit_var_new_op_3_Select (m_cond l) i1 i2) env))
         in env1\<lparr>slots := (slots env1)(p := r)\<rparr>))"

definition cond_wavefront :: "jit_externals \<Rightarrow> 32 word \<Rightarrow> loop_state \<Rightarrow> (fault + bool) \<times> loop_state" where
  "cond_wavefront ext cond s =
     (case s of (l, env) \<Rightarrow>
        (let (l1, env1) =
               (if m_cond l \<noteq> 0
                then (l\<lparr>m_index_out := [], m_cond := 0\<rparr>,
                      jit Jit_var_mask_pop
                        (fold (select_var ext l) (zip [0..<length (m_index_p l)] (m_index_p l)) env))
                else (l, env));
             env2 = jit Jit_eval
                      (fold (\<lambda>p e. jit (Jit_var_schedule (slots e p)) e) (m_index_p l1)
                         (jit (Jit_var_schedule cond) env1))
         in if var_any ext (jit_calls env2) cond
            then (Inr True,
                  (l1\<lparr>m_cond := cond,
                      m_index_out := m_index_out l1 @ map (slots env2) (m_index_p l1)\<rparr>,
                   fold (\<lambda>p e. jit (Jit_var_inc_ref_ext (slots e p)) e) (m_index_p l1)
                     (jit (Jit_var_mask_push cond) env2)))
            else (Inr False, (l1, env2))))"

definition cond :: "jit_externals \<Rightarrow> 32 word \<Rightarrow> loop_state \<Rightarrow> (fault + bool) \<times> loop_state" where
  "cond ext c s = (if m_record (fst s) then cond_record ext c s else cond_wavefront ext c s)"


section \<open>The schedule of \<^verbatim>\<open>jitc_eval\<close>: ordering and grouping\<close>

text \<open>
  \<^verbatim>\<open>ScheduledVariable\<close> is the pair \<^verbatim>\<open>(size, index)\<close>, \<^verbatim>\<open>ScheduledGroup\<close> the triple
  \<^verbatim>\<open>(size, start, end)\<close> of positions in the schedule.
\<close>

record ScheduledVariable =
  sv_size :: "32 word"
  sv_index :: "32 word"

record ScheduledGroup =
  sg_size :: "32 word"
  sg_start :: nat
  sg_end :: nat

text \<open>The comparison that \<^verbatim>\<open>jitc_eval\<close> passes to \<^verbatim>\<open>std::sort\<close>, branch by branch.\<close>

definition schedule_less :: "ScheduledVariable \<Rightarrow> ScheduledVariable \<Rightarrow> bool" where
  "schedule_less a b =
     (if sv_size a > sv_size b then True
      else if sv_size a < sv_size b then False
      else if sv_index a > sv_index b then False
      else if sv_index a < sv_index b then True
      else False)"

text \<open>
  \<^verbatim>\<open>std::sort\<close> belongs to the C++ library: it returns the elements in an order in which
  no element is less than an earlier one. Sorting by insertion with the same comparison
  stands for it.
\<close>

fun insert_by :: "('a \<Rightarrow> 'a \<Rightarrow> bool) \<Rightarrow> 'a \<Rightarrow> 'a list \<Rightarrow> 'a list" where
  "insert_by cmp x [] = [x]"
| "insert_by cmp x (y # ys) = (if cmp x y then x # y # ys else y # insert_by cmp x ys)"

definition std_sort :: "('a \<Rightarrow> 'a \<Rightarrow> bool) \<Rightarrow> 'a list \<Rightarrow> 'a list" where
  "std_sort cmp xs = foldr (insert_by cmp) xs []"

text \<open>A 32-bit unsigned value, as a natural number: the cast \<^verbatim>\<open>(uint32_t)\<close>.\<close>

definition u32 :: "nat \<Rightarrow> nat" where
  "u32 n = n mod 2 ^ 32"

text \<open>
  The loop \<^verbatim>\<open>for (uint32_t i = 1; i < (uint32_t) schedule.size(); ++i)\<close> that closes a
  group wherever two neighbours differ in size. \<open>i\<close> stays below a 32-bit value, so
  \<^verbatim>\<open>++i\<close> does not wrap.
\<close>

function group_loop ::
  "ScheduledVariable list \<Rightarrow> nat \<Rightarrow> nat \<Rightarrow> ScheduledGroup list \<Rightarrow> nat \<times> ScheduledGroup list" where
  "group_loop schedule cur i groups =
     (if i < u32 (length schedule) then
        (if sv_size (schedule ! (i - 1)) \<noteq> sv_size (schedule ! i)
         then group_loop schedule i (Suc i)
                (groups @ [\<lparr>sg_size = sv_size (schedule ! cur), sg_start = cur, sg_end = i\<rparr>])
         else group_loop schedule cur (Suc i) groups)
      else (cur, groups))"
  by pat_completeness auto
termination
  by (relation "measure (\<lambda>(schedule, cur, i, groups). u32 (length schedule) - i)") auto

declare group_loop.simps [simp del]

definition schedule_groups :: "ScheduledVariable list \<Rightarrow> ScheduledGroup list" where
  "schedule_groups schedule =
     (if sv_size (schedule ! 0) = sv_size (schedule ! (length schedule - 1))
      then [\<lparr>sg_size = sv_size (schedule ! 0), sg_start = 0, sg_end = u32 (length schedule)\<rparr>]
      else (case group_loop schedule 0 1 [] of
              (cur, groups) \<Rightarrow>
                groups @ [\<lparr>sg_size = sv_size (schedule ! cur), sg_start = cur,
                           sg_end = u32 (length schedule)\<rparr>]))"

text \<open>
  The part of \<^verbatim>\<open>jitc_eval\<close> between the traversal and the launches: nothing is done
  for an empty schedule (\<open>None\<close>); otherwise the schedule is sorted and partitioned.
\<close>

definition jitc_eval_order ::
  "ScheduledVariable list \<Rightarrow> (ScheduledVariable list \<times> ScheduledGroup list) option" where
  "jitc_eval_order traversed =
     (if traversed = [] then None
      else (let schedule = std_sort schedule_less traversed
            in Some (schedule, schedule_groups schedule)))"

text \<open>The order of the sorted schedule: larger sizes first, and among equal sizes the
  smaller identifier first.\<close>

definition schedule_le :: "ScheduledVariable \<Rightarrow> ScheduledVariable \<Rightarrow> bool" where
  "schedule_le a b = (sv_size a > sv_size b \<or> (sv_size a = sv_size b \<and> sv_index a \<le> sv_index b))"

text \<open>\<open>tiles schedule lo groups hi\<close>: the groups follow one another from position \<open>lo\<close> to
  position \<open>hi\<close>, each is not empty, and all its variables have the group's size.\<close>

fun tiles :: "ScheduledVariable list \<Rightarrow> nat \<Rightarrow> ScheduledGroup list \<Rightarrow> nat \<Rightarrow> bool" where
  "tiles schedule lo [] hi = (lo = hi)"
| "tiles schedule lo (g # gs) hi =
     (sg_start g = lo \<and> lo < sg_end g
      \<and> (\<forall>i. lo \<le> i \<and> i < sg_end g \<longrightarrow> sv_size (schedule ! i) = sg_size g)
      \<and> tiles schedule (sg_end g) gs hi)"


section \<open>32-bit index arithmetic\<close>

text \<open>
  Sizes and positions are \<^verbatim>\<open>uint32_t\<close> in the sources. They are natural numbers here,
  and the arithmetic that can wrap around is written out. \<open>range32 start end\<close> lists the
  values that the loop \<^verbatim>\<open>for (uint32_t i = start; i != end; ++i)\<close> runs through.
\<close>

definition add32 :: "nat \<Rightarrow> nat \<Rightarrow> nat" where
  "add32 a b = (a + b) mod 2 ^ 32"

definition sub32 :: "nat \<Rightarrow> nat \<Rightarrow> nat" where
  "sub32 a b = (a + (2 ^ 32 - b mod 2 ^ 32)) mod 2 ^ 32"

definition mul32 :: "nat \<Rightarrow> nat \<Rightarrow> nat" where
  "mul32 a b = (a * b) mod 2 ^ 32"

definition range32 :: "nat \<Rightarrow> nat \<Rightarrow> nat list" where
  "range32 start end = map (\<lambda>k. add32 start k) [0..<sub32 end start]"

text \<open>
  Modelled from the spec: the table \<^verbatim>\<open>type_size\<close> is not among the sources. Its entries
  are the widths of the scalar types the specification lists: integers of 8, 16, 32 and
  64 bits, half, float and double, the boolean (one byte), the pointer (eight bytes, as
  the parameter slots of \<^verbatim>\<open>sizeof(void *)\<close> bytes) and void.
\<close>

fun type_size :: "VarType \<Rightarrow> nat" where
  "type_size Void = 0"
| "type_size Bool = 1"
| "type_size Int8 = 1"
| "type_size UInt8 = 1"
| "type_size Int16 = 2"
| "type_size UInt16 = 2"
| "type_size Int32 = 4"
| "type_size UInt32 = 4"
| "type_size Int64 = 8"
| "type_size UInt64 = 8"
| "type_size Pointer = 8"
| "type_size Float16 = 2"
| "type_size Float32 = 4"
| "type_size Float64 = 8"

section \<open>Assembly of a scheduled group (\<^verbatim>\<open>jitc_assemble\<close>)\<close>

datatype ParamType = Register | Input | Output

datatype AllocType = Host | HostAsync | HostPinned | Device | Managed | ManagedReadMostly

text \<open>The fields of a variable that \<^verbatim>\<open>jitc_assemble\<close> reads or writes. Pointers are
  addresses; \<open>None\<close> is the null pointer.\<close>

record Variable =
  v_backend :: JitBackend
  v_type :: VarType
  v_size :: "32 word"
  v_data :: "nat option"
  v_stmt :: "string option"
  v_value :: "64 word"
  literal :: bool
  output_flag :: bool
  side_effect :: bool
  optix :: bool
  ref_count_int :: nat
  ref_count_ext :: nat
  ref_count_se :: nat
  param_type :: ParamType
  param_offset :: "32 word"
  reg_index :: "32 word"

text \<open>
  The state of the assembler: the variables (\<^verbatim>\<open>state.variables\<close>), the parameter vector
  and the counters. \<open>heap_top\<close> is the next free address of the allocator.
\<close>

record asm_state =
  variables :: "32 word \<Rightarrow> Variable option"
  kernel_params :: "nat list"
  kernel_params_global :: "nat option"
  kernel_param_count :: "32 word"
  n_params_in :: "32 word"
  n_params_out :: "32 word"
  n_side_effects :: "32 word"
  n_regs :: "32 word"
  n_regs_used :: "32 word"
  uses_optix :: bool
  heap_top :: nat
  warnings :: "string list"

text \<open>
  Modelled from the spec: the allocator is outside the sources. \<^verbatim>\<open>jitc_malloc\<close> returns
  the address of a region of the requested size that no live region overlaps; here the
  regions follow one another.
\<close>

definition jitc_malloc :: "AllocType \<Rightarrow> nat \<Rightarrow> asm_state \<Rightarrow> nat \<times> asm_state" where
  "jitc_malloc kind bytes st = (heap_top st, st\<lparr>heap_top := heap_top st + max bytes 1\<rparr>)"

text \<open>The body of the loop over the group: the sanity checks, the classification of the
  variable as input, output, literal pointer or register, and the register number.
  \<open>optix_enabled\<close> is the compile-time switch \<^verbatim>\<open>ENOKI_JIT_ENABLE_OPTIX\<close>.\<close>

definition assemble_var ::
  "bool \<Rightarrow> JitBackend \<Rightarrow> 32 word \<Rightarrow> 32 word \<Rightarrow> asm_state \<Rightarrow> fault option \<times> asm_state" where
  "assemble_var optix_enabled backend group_size index st =
     (case variables st index of
        None \<Rightarrow> (Some (Fail ''jit_var(): unknown variable!''), st)
      | Some v \<Rightarrow>
          if v_backend v \<noteq> backend
          then (Some (Raise ''jit_assemble(): variable scheduled in wrong ThreadState''), st)
          else if ref_count_int v = 0 \<and> ref_count_ext v = 0
          then (Some (Fail ''jit_assemble(): schedule contains unreferenced variable!''), st)
          else if v_size v \<noteq> 1 \<and> v_size v \<noteq> group_size
          then (Some (Fail ''jit_assemble(): schedule contains variable with incompatible size!''), st)
          else if v_data v = None \<and> \<not> literal v \<and> v_stmt v = None
          then (Some (Fail ''jit_assemble(): variable has no statement!''), st)
          else if literal v \<and> v_data v \<noteq> None
          then (Some (Fail ''jit_assemble(): variable is simultaneously literal and evaluated!''), st)
          else if ref_count_se v \<noteq> 0
          then (Some (Fail ''jit_assemble(): dirty variable encountered!''), st)
          else
            (let v1 = v\<lparr>param_offset := word_of_nat (length (kernel_params st) * 8)\<rparr>;
                 (v2, st2) =
                   (if v_data v \<noteq> None then
                      (v1\<lparr>param_type := Input\<rparr>,
                       st\<lparr>kernel_params := kernel_params st @ [the (v_data v)],
                          n_params_in := n_params_in st + 1\<rparr>)
                    else if output_flag v \<and> v_size v = group_size then
                      (let isize = type_size (v_type v);
                           dsize = unat group_size * isize;
                           dsize' = (if backend = LLVM \<and> isize < 4 then dsize + 4 - isize else dsize);
                           (data, st1) =
                             jitc_malloc (if backend = CUDA then Device else HostAsync) dsize' st
                       in (v1\<lparr>v_data := Some data, param_type := Output\<rparr>,
                           st1\<lparr>kernel_params := kernel_params st1 @ [data],
                               n_params_out := n_params_out st1 + 1\<rparr>))
                    else if literal v \<and> v_type v = Pointer then
                      (v1\<lparr>param_type := Input\<rparr>,
                       st\<lparr>kernel_params := kernel_params st @ [unat (v_value v)],
                          n_params_in := n_params_in st + 1\<rparr>)
                    else
                      (v1\<lparr>param_type := Register, param_offset := 0xFFFF\<rparr>,
                       st\<lparr>n_side_effects := n_side_effects st + (if side_effect v then 1 else 0),
                          uses_optix := (uses_optix st \<or> (optix_enabled \<and> optix v))\<rparr>))
             in (None, st2\<lparr>variables := (variables st2)(index \<mapsto> v2\<lparr>reg_index := n_regs st2\<rparr>),
                           n_regs := n_regs st2 + 1\<rparr>)))"

text \<open>The loop: the first fault ends it.\<close>

fun assemble_loop ::
  "bool \<Rightarrow> JitBackend \<Rightarrow> 32 word \<Rightarrow> 32 word list \<Rightarrow> asm_state \<Rightarrow> fault option \<times> asm_state" where
  "assemble_loop optix_enabled backend group_size [] st = (None, st)"
| "assemble_loop optix_enabled backend group_size (index # rest) st =
     (case assemble_var optix_enabled backend group_size index st of
        (Some e, st1) \<Rightarrow> (Some e, st1)
      | (None, st1) \<Rightarrow> assemble_loop optix_enabled backend group_size rest st1)"

text \<open>
  \<^verbatim>\<open>jitc_assemble\<close> up to the call of the backend's text generator, which is outside
  the sources: the reset of the parameter vector and the counters, the reserved
  parameters and registers of the backend, the loop over the group, the two warnings and
  the staging of the parameters in global memory. \<open>flag_ForceOptiX\<close> is the runtime flag,
  \<open>arg_limit\<close> the constant \<^verbatim>\<open>ENOKI_CUDA_ARG_LIMIT\<close>.
\<close>

definition jitc_assemble ::
  "bool \<Rightarrow> bool \<Rightarrow> nat \<Rightarrow> JitBackend \<Rightarrow> ScheduledVariable list \<Rightarrow> ScheduledGroup \<Rightarrow> asm_state
     \<Rightarrow> fault option \<times> asm_state" where
  "jitc_assemble optix_enabled flag_ForceOptiX arg_limit backend schedule grp st =
     (let st0 = st\<lparr>kernel_params := (if backend = CUDA then [unat (sg_size grp)] else [0, 0, 0]),
                   uses_optix := (if optix_enabled then backend = CUDA \<and> flag_ForceOptiX
                                  else uses_optix st),
                   n_params_in := 0, n_params_out := 0, n_side_effects := 0,
                   n_regs := (if backend = CUDA then 4 else 1)\<rparr>
      in case assemble_loop optix_enabled backend (sg_size grp)
                (map (\<lambda>group_index. sv_index (schedule ! group_index))
                   (range32 (sg_start grp) (sg_end grp))) st0 of
           (Some e, st1) \<Rightarrow> (Some e, st1)
         | (None, st1) \<Rightarrow>
             (let st2 = st1\<lparr>warnings := warnings st1 @
                           (if n_regs st1 > 0xFFFFF
                            then [''jit_run(): The generated kernel uses a more than 1 million variables'']
                            else []) @
                           (if length (kernel_params st1) > 0xFFFF
                            then [''jit_run(): The generated kernel accesses more than 8192 arrays'']
                            else [])\<rparr>;
                  st3 = st2\<lparr>kernel_param_count := word_of_nat (length (kernel_params st2)),
                            n_regs_used := n_regs st2\<rparr>
              in if backend = CUDA \<and> (uses_optix st3 \<or> unat (kernel_param_count st3) > arg_limit)
                 then (let bytes = unat (kernel_param_count st3) * 8;
                           (tmp, st4) = jitc_malloc HostPinned bytes st3;
                           (global, st5) = jitc_malloc Device bytes st4
                       in (None, st5\<lparr>kernel_params_global := Some global,
                                     kernel_params := [global]\<rparr>))
                 else (None, st3)))"

section \<open>Parallel primitives on the host\<close>

text \<open>
  The primitives of \<^verbatim>\<open>util.cpp\<close> dispatch on the backend. The branch of the CUDA backend
  launches precompiled device kernels that are not among the sources; the definitions
  below are the checks at the entry of each primitive and its branch of the LLVM backend.

  An array is the list of its elements, an element of an integer or floating-point type
  is the word of its bits. Floating-point arithmetic is not defined here: the operations
  of the hardware on the bit patterns are the parameter \<open>F\<close>. The size of the thread pool
  (\<^verbatim>\<open>pool_size()\<close>) and the block size \<^verbatim>\<open>jitc_llvm_block_size\<close>, both defined outside
  the sources, are parameters as well.
\<close>

record 'v fpu =
  fp_add :: "'v \<Rightarrow> 'v \<Rightarrow> 'v"
  fp_mul :: "'v \<Rightarrow> 'v \<Rightarrow> 'v"
  fp_less :: "'v \<Rightarrow> 'v \<Rightarrow> bool"
  fp_one :: 'v
  fp_infinity :: 'v
  fp_neg_infinity :: 'v

fun is_float :: "VarType \<Rightarrow> bool" where
  "is_float Float16 = True"
| "is_float Float32 = True"
| "is_float Float64 = True"
| "is_float _ = False"

fun is_signed :: "VarType \<Rightarrow> bool" where
  "is_signed Int8 = True"
| "is_signed Int16 = True"
| "is_signed Int32 = True"
| "is_signed Int64 = True"
| "is_signed _ = False"

text \<open>
  \<^verbatim>\<open>jitc_submit_cpu(type, func, width, size)\<close> hands \<open>size\<close> work units to the thread pool
  and orders them after the work submitted before. The units of one submission write
  disjoint parts of the memory; they run here one after the other, and the first fault
  ends the submission.
\<close>

fun run_units :: "(nat \<Rightarrow> 's \<Rightarrow> fault + 's) \<Rightarrow> nat list \<Rightarrow> 's \<Rightarrow> fault + 's" where
  "run_units f [] s = Inr s"
| "run_units f (index # rest) s =
     (case f index s of Inl e \<Rightarrow> Inl e | Inr s1 \<Rightarrow> run_units f rest s1)"

definition jitc_submit_cpu :: "(nat \<Rightarrow> 's \<Rightarrow> fault + 's) \<Rightarrow> nat \<Rightarrow> 's \<Rightarrow> fault + 's" where
  "jitc_submit_cpu func units s = run_units func [0..<units] s"

subsection \<open>Reduction (\<^verbatim>\<open>jitc_reduce\<close>)\<close>

text \<open>The loop of every reduction: \<^verbatim>\<open>for (uint32_t i = start; i != end; ++i)
  result = f(result, ptr[i]);\<close>\<close>

definition reduce_loop :: "('v \<Rightarrow> 'v \<Rightarrow> 'v) \<Rightarrow> 'v \<Rightarrow> 'v list \<Rightarrow> nat \<Rightarrow> nat \<Rightarrow> 'v" where
  "reduce_loop f initial ptr start end =
     fold (\<lambda>i result. f result (ptr ! i)) (range32 start end) initial"

text \<open>The comparison and the arithmetic of the type \<^verbatim>\<open>Value\<close> that the tag selects:
  signed or unsigned integers, or floating-point numbers.\<close>

definition less_T :: "'a::len word fpu \<Rightarrow> VarType \<Rightarrow> 'a word \<Rightarrow> 'a word \<Rightarrow> bool" where
  "less_T F vt a b = (if is_float vt then fp_less F a b else if is_signed vt then a <s b else a < b)"

definition plus_T :: "'a::len word fpu \<Rightarrow> VarType \<Rightarrow> 'a word \<Rightarrow> 'a word \<Rightarrow> 'a word" where
  "plus_T F vt a b = (if is_float vt then fp_add F a b else a + b)"

definition times_T :: "'a::len word fpu \<Rightarrow> VarType \<Rightarrow> 'a word \<Rightarrow> 'a word \<Rightarrow> 'a word" where
  "times_T F vt a b = (if is_float vt then fp_mul F a b else a * b)"

definition std_max :: "('v \<Rightarrow> 'v \<Rightarrow> bool) \<Rightarrow> 'v \<Rightarrow> 'v \<Rightarrow> 'v" where
  "std_max lt a b = (if lt a b then b else a)"

definition std_min :: "('v \<Rightarrow> 'v \<Rightarrow> bool) \<Rightarrow> 'v \<Rightarrow> 'v \<Rightarrow> 'v" where
  "std_min lt a b = (if lt b a then b else a)"

text \<open>\<^verbatim>\<open>std::numeric_limits<Value>::min()\<close> and \<^verbatim>\<open>max()\<close> of the integer types.\<close>

definition numeric_limits_min :: "VarType \<Rightarrow> 'a::len word" where
  "numeric_limits_min vt = (if is_signed vt then push_bit (LENGTH('a) - 1) 1 else 0)"

definition numeric_limits_max :: "VarType \<Rightarrow> 'a::len word" where
  "numeric_limits_max vt = (if is_signed vt then mask (LENGTH('a) - 1) else - 1)"

text \<open>The template \<^verbatim>\<open>jitc_reduce_create<Value>(op)\<close>. The bitwise operations work on
  the unsigned integer of the width of \<^verbatim>\<open>Value\<close>.\<close>

definition jitc_reduce_create_T ::
  "'a::len word fpu \<Rightarrow> VarType \<Rightarrow> ReduceOp \<Rightarrow> fault + ('a word list \<Rightarrow> nat \<Rightarrow> nat \<Rightarrow> 'a word)" where
  "jitc_reduce_create_T F vt op =
     (case op of
        Op_Add \<Rightarrow> Inr (reduce_loop (plus_T F vt) 0)
      | Op_Mul \<Rightarrow> Inr (reduce_loop (times_T F vt) (if is_float vt then fp_one F else 1))
      | Op_Max \<Rightarrow> Inr (reduce_loop (std_max (less_T F vt))
                        (if is_float vt then fp_neg_infinity F else numeric_limits_min vt))
      | Op_Min \<Rightarrow> Inr (reduce_loop (std_min (less_T F vt))
                        (if is_float vt then fp_infinity F else numeric_limits_max vt))
      | Op_Or \<Rightarrow> Inr (reduce_loop (OR) 0)
      | Op_And \<Rightarrow> Inr (reduce_loop (AND) (- 1))
      | _ \<Rightarrow> Inl (Raise ''jit_reduce_create(): unsupported reduction type!''))"

text \<open>\<^verbatim>\<open>jitc_reduce_create(type, op)\<close>: the switch over the type comes first.\<close>

fun jitc_reduce_create ::
  "'a::len word fpu \<Rightarrow> VarType \<Rightarrow> ReduceOp \<Rightarrow> fault + ('a word list \<Rightarrow> nat \<Rightarrow> nat \<Rightarrow> 'a word)" where
  "jitc_reduce_create F Int8 op = jitc_reduce_create_T F Int8 op"
| "jitc_reduce_create F UInt8 op = jitc_reduce_create_T F UInt8 op"
| "jitc_reduce_create F Int16 op = jitc_reduce_create_T F Int16 op"
| "jitc_reduce_create F UInt16 op = jitc_reduce_create_T F UInt16 op"
| "jitc_reduce_create F Int32 op = jitc_reduce_create_T F Int32 op"
| "jitc_reduce_create F UInt32 op = jitc_reduce_create_T F UInt32 op"
| "jitc_reduce_create F Int64 op = jitc_reduce_create_T F Int64 op"
| "jitc_reduce_create F UInt64 op = jitc_reduce_create_T F UInt64 op"
| "jitc_reduce_create F Float16 op = jitc_reduce_create_T F Float16 op"
| "jitc_reduce_create F Float32 op = jitc_reduce_create_T F Float32 op"
| "jitc_reduce_create F Float64 op = jitc_reduce_create_T F Float64 op"
| "jitc_reduce_create F _ op = Inl (Raise ''jit_reduce_create(): unsupported data type!'')"

text \<open>
  \<^verbatim>\<open>jitc_reduce\<close> on the host. With more than one worker the input is cut into blocks of
  \<^verbatim>\<open>jitc_llvm_block_size\<close> elements, every block is reduced to a partial result, and the
  partial results are reduced by a recursive call. The division by a block size of zero
  traps. The result is the value written to \<^verbatim>\<open>out\<close>. The recursion does not end when
  the block size is one: the value is \<open>None\<close> then.
\<close>

partial_function (option) jitc_reduce ::
  "'a::len word fpu \<Rightarrow> nat \<Rightarrow> nat \<Rightarrow> VarType \<Rightarrow> ReduceOp \<Rightarrow> 'a word list \<Rightarrow> nat
     \<Rightarrow> (fault + 'a word) option" where
  "jitc_reduce F pool_size llvm_block_size vt op ptr sz =
     (if pool_size > 1 \<and> llvm_block_size = 0 then Some (Inl Trap)
      else
        (let block_size = (if pool_size > 1 then llvm_block_size else sz);
             blocks = (if pool_size > 1 then sub32 (add32 sz block_size) 1 div block_size else 1)
         in case jitc_reduce_create F vt op of
              Inl e \<Rightarrow> Some (Inl e)
            | Inr reduction \<Rightarrow>
                (let target = map (\<lambda>index. reduction ptr (mul32 index block_size)
                                               (min (mul32 (index + 1) block_size) sz))
                                [0..<max 1 blocks]
                 in if blocks > 1
                    then jitc_reduce F pool_size llvm_block_size vt op target blocks
                    else Some (Inr (target ! 0)))))"

subsection \<open>Prefix sum (\<^verbatim>\<open>jitc_prefix_sum\<close>)\<close>

text \<open>
  The two phases. \<open>mem\<close> is the memory that holds the input at offset \<open>inp\<close> (the pointer \<^verbatim>\<open>in\<close>) and the
  output at offset \<open>out\<close>, so that the two regions can be the same. \<open>scratch\<close> is the
  buffer of the block sums, \<open>None\<close> for the null pointer.
\<close>

definition sum_reduce_1_T ::
  "('v \<Rightarrow> 'v \<Rightarrow> 'v) \<Rightarrow> 'v \<Rightarrow> nat \<Rightarrow> nat \<Rightarrow> 'v list \<Rightarrow> nat \<Rightarrow> nat \<Rightarrow> 'v list \<Rightarrow> 'v list" where
  "sum_reduce_1_T add nought start end mem inp index scratch =
     scratch[index := fold (\<lambda>i accum. add accum (mem ! (inp + i))) (range32 start end) nought]"

definition sum_reduce_2_T ::
  "('v \<Rightarrow> 'v \<Rightarrow> 'v) \<Rightarrow> 'v \<Rightarrow> nat \<Rightarrow> nat \<Rightarrow> nat \<Rightarrow> nat \<Rightarrow> nat \<Rightarrow> 'v list option \<Rightarrow> bool
     \<Rightarrow> 'v list \<Rightarrow> 'v list" where
  "sum_reduce_2_T add nought start end inp out index scratch exclusive mem =
     snd (fold (\<lambda>i (accum, m).
                  (let v = m ! (inp + i)
                   in if exclusive then (add accum v, m[out + i := accum])
                      else (add accum v, m[out + i := add accum v])))
            (range32 start end)
            (case scratch of Some sc \<Rightarrow> sc ! index | None \<Rightarrow> nought, mem))"

text \<open>The switches over the type tag. The message of the fault is
  \<^verbatim>\<open>jit_prefix_sum(): type %s is not supported!\<close> with the name of the type from the table
  \<^verbatim>\<open>type_name\<close>, which is outside the sources; the name is left out here.\<close>

fun sum_reduce_1 ::
  "'a::len word fpu \<Rightarrow> VarType \<Rightarrow> nat \<Rightarrow> nat \<Rightarrow> 'a word list \<Rightarrow> nat \<Rightarrow> nat \<Rightarrow> 'a word list
     \<Rightarrow> fault + 'a word list" where
  "sum_reduce_1 F UInt32 start end mem inp index scratch =
     Inr (sum_reduce_1_T (+) 0 start end mem inp index scratch)"
| "sum_reduce_1 F UInt64 start end mem inp index scratch =
     Inr (sum_reduce_1_T (+) 0 start end mem inp index scratch)"
| "sum_reduce_1 F Float32 start end mem inp index scratch =
     Inr (sum_reduce_1_T (fp_add F) 0 start end mem inp index scratch)"
| "sum_reduce_1 F Float64 start end mem inp index scratch =
     Inr (sum_reduce_1_T (fp_add F) 0 start end mem inp index scratch)"
| "sum_reduce_1 F _ start end mem inp index scratch =
     Inl (Raise ''jit_prefix_sum(): type is not supported!'')"

fun sum_reduce_2 ::
  "'a::len word fpu \<Rightarrow> VarType \<Rightarrow> nat \<Rightarrow> nat \<Rightarrow> nat \<Rightarrow> nat \<Rightarrow> nat \<Rightarrow> 'a word list option \<Rightarrow> bool
     \<Rightarrow> 'a word list \<Rightarrow> fault + 'a word list" where
  "sum_reduce_2 F UInt32 start end inp out index scratch exclusive mem =
     Inr (sum_reduce_2_T (+) 0 start end inp out index scratch exclusive mem)"
| "sum_reduce_2 F UInt64 start end inp out index scratch exclusive mem =
     Inr (sum_reduce_2_T (+) 0 start end inp out index scratch exclusive mem)"
| "sum_reduce_2 F Float32 start end inp out index scratch exclusive mem =
     Inr (sum_reduce_2_T (fp_add F) 0 start end inp out index scratch exclusive mem)"
| "sum_reduce_2 F Float64 start end inp out index scratch exclusive mem =
     Inr (sum_reduce_2_T (fp_add F) 0 start end inp out index scratch exclusive mem)"
| "sum_reduce_2 F _ start end inp out index scratch exclusive mem =
     Inl (Raise ''jit_prefix_sum(): type is not supported!'')"

text \<open>
  \<^verbatim>\<open>jitc_prefix_sum\<close> on the host: nothing is done for a size of zero; \<^verbatim>\<open>Int32\<close> is
  treated as \<^verbatim>\<open>UInt32\<close>. With more than one block, the first phase writes the sum of
  every block to the scratch buffer (fresh memory, written before it is read), a
  recursive call replaces the block sums by their exclusive prefix sums in place, and the
  second phase writes the output of every block, starting from the block's entry of the
  scratch buffer.
\<close>

partial_function (option) jitc_prefix_sum ::
  "'a::len word fpu \<Rightarrow> nat \<Rightarrow> nat \<Rightarrow> VarType \<Rightarrow> bool \<Rightarrow> nat \<Rightarrow> nat \<Rightarrow> nat \<Rightarrow> 'a word list
     \<Rightarrow> (fault + 'a word list) option" where
  "jitc_prefix_sum F pool_size llvm_block_size vt0 exclusive inp sz out mem =
     (if sz = 0 then Some (Inr mem)
      else if pool_size > 1 \<and> llvm_block_size = 0 then Some (Inl Trap)
      else
        (let vt = (if vt0 = Int32 then UInt32 else vt0);
             block_size = (if pool_size > 1 then llvm_block_size else sz);
             blocks = (if pool_size > 1 then sub32 (add32 sz block_size) 1 div block_size else 1)
         in if blocks > 1 then
              (case jitc_submit_cpu
                      (\<lambda>index. sum_reduce_1 F vt (mul32 index block_size)
                                  (min (add32 (mul32 index block_size) block_size) sz) mem inp index)
                      blocks (replicate blocks 0) of
                 Inl e \<Rightarrow> Some (Inl e)
               | Inr scratch \<Rightarrow>
                   Option.bind
                     (jitc_prefix_sum F pool_size llvm_block_size vt True 0 blocks 0 scratch)
                     (\<lambda>r. case r of
                             Inl e \<Rightarrow> Some (Inl e)
                           | Inr scratch' \<Rightarrow>
                               Some (jitc_submit_cpu
                                       (\<lambda>index. sum_reduce_2 F vt (mul32 index block_size)
                                                   (min (add32 (mul32 index block_size) block_size) sz)
                                                   inp out index (Some scratch') exclusive)
                                       blocks mem)))
            else
              Some (jitc_submit_cpu
                      (\<lambda>index. sum_reduce_2 F vt (mul32 index block_size)
                                  (min (add32 (mul32 index block_size) block_size) sz)
                                  inp out index None exclusive)
                      blocks mem)))"

subsection \<open>Mask compression (\<^verbatim>\<open>jitc_compress\<close>)\<close>

text \<open>The two work units of \<^verbatim>\<open>jitc_compress\<close>: the count of a block, and the pass that
  writes the positions of the non-zero bytes of a block. The second one also sets
  \<^verbatim>\<open>count_out\<close> in the block that ends the input.\<close>

definition compress_count ::
  "8 word list \<Rightarrow> nat \<Rightarrow> nat \<Rightarrow> nat \<Rightarrow> 32 word list \<Rightarrow> 32 word list" where
  "compress_count inp start end index scratch =
     scratch[index := fold (\<lambda>i accum. accum + ucast (inp ! i)) (range32 start end) 0]"

definition compress_write ::
  "8 word list \<Rightarrow> nat \<Rightarrow> nat \<Rightarrow> nat \<Rightarrow> nat \<Rightarrow> 32 word list option
     \<Rightarrow> 32 word list \<times> 32 word \<Rightarrow> 32 word list \<times> 32 word" where
  "compress_write inp sz start end index scratch s =
     (case s of (out, count_out) \<Rightarrow>
        (case fold (\<lambda>i (accum, out).
                      (let v = (ucast (inp ! i) :: 32 word)
                       in (accum + v, if v \<noteq> 0 then out[unat accum := word_of_nat i] else out)))
                (range32 start end)
                (case scratch of Some sc \<Rightarrow> sc ! index | None \<Rightarrow> 0, out) of
           (accum, out1) \<Rightarrow> (out1, if end = sz then accum else count_out)))"

definition jitc_compress ::
  "32 word fpu \<Rightarrow> nat \<Rightarrow> nat \<Rightarrow> 8 word list \<Rightarrow> nat \<Rightarrow> 32 word list
     \<Rightarrow> (fault + 32 word \<times> 32 word list) option" where
  "jitc_compress F pool_size llvm_block_size inp sz out =
     (if sz = 0 then Some (Inr (0, out))
      else if pool_size > 1 \<and> llvm_block_size = 0 then Some (Inl Trap)
      else
        (let block_size = (if pool_size > 1 then llvm_block_size else sz);
             blocks = (if pool_size > 1 then sub32 (add32 sz block_size) 1 div block_size else 1);
             pass2 = (\<lambda>scratch.
                        case fold (\<lambda>index. compress_write inp sz (mul32 index block_size)
                                     (min (add32 (mul32 index block_size) block_size) sz) index scratch)
                               [0..<blocks] (out, 0) of
                          (out1, count_out) \<Rightarrow> (count_out, out1))
         in if blocks > 1 then
              Option.bind
                (jitc_prefix_sum F pool_size llvm_block_size UInt32 True 0 blocks 0
                   (fold (\<lambda>index. compress_count inp (mul32 index block_size)
                             (min (add32 (mul32 index block_size) block_size) sz) index)
                      [0..<blocks] (replicate blocks 0)))
                (\<lambda>r. case r of
                        Inl e \<Rightarrow> Some (Inl e)
                      | Inr scratch \<Rightarrow> Some (Inr (pass2 (Some scratch))))
            else Some (Inr (pass2 None))))"

subsection \<open>Boolean reductions (\<^verbatim>\<open>jitc_all\<close>, \<^verbatim>\<open>jitc_any\<close>)\<close>

text \<open>
  Modelled from the spec: \<^verbatim>\<open>LLVMThreadState::jitc_memset_async\<close> is declared in the
  sources, its body is missing. The declaration says that it fills a memory region with
  constants of a given type, and the specification that an element size other than 1, 2,
  4 or 8 is a contract violation that fails at the call: the \<open>size\<close> elements of \<open>isize\<close>
  bytes from the byte address \<open>ptr\<close> on receive the bytes of \<open>src\<close>.
\<close>

definition LLVM_jitc_memset_async ::
  "8 word list \<Rightarrow> nat \<Rightarrow> nat \<Rightarrow> nat \<Rightarrow> 8 word list \<Rightarrow> fault + 8 word list" where
  "LLVM_jitc_memset_async mem ptr sz isize src =
     (if isize \<noteq> 1 \<and> isize \<noteq> 2 \<and> isize \<noteq> 4 \<and> isize \<noteq> 8
      then Inl (Raise ''jit_memset_async(): invalid element size (must be 1, 2, 4, or 8)!'')
      else Inr (fold (\<lambda>k m. m[ptr + k := src ! (k mod isize)]) [0..<sz * isize] mem))"

text \<open>
  The cast of the byte array to \<^verbatim>\<open>const uint32_t *\<close>, and the four bytes \<^verbatim>\<open>out[0..3]\<close> of
  the result, on a host that stores the low byte first.
\<close>

definition load_uint32 :: "8 word list \<Rightarrow> nat \<Rightarrow> 32 word" where
  "load_uint32 mem i =
     ucast (mem ! (4 * i)) OR push_bit 8 (ucast (mem ! (4 * i + 1)))
       OR push_bit 16 (ucast (mem ! (4 * i + 2))) OR push_bit 24 (ucast (mem ! (4 * i + 3)))"

definition as_uint32 :: "8 word list \<Rightarrow> 32 word list" where
  "as_uint32 mem = map (load_uint32 mem) [0..<length mem div 4]"

definition store_uint32 :: "32 word \<Rightarrow> 8 word list" where
  "store_uint32 w = map (\<lambda>k. ucast (drop_bit (8 * k) w)) [0..<4]"

text \<open>
  \<^verbatim>\<open>jitc_all\<close> and \<^verbatim>\<open>jitc_any\<close> on the host. \<open>values\<close> is the allocation that holds the
  \<open>sz\<close> bytes of the array; the result is the boolean and the allocation after the call.
\<close>

definition jitc_all ::
  "32 word fpu \<Rightarrow> nat \<Rightarrow> nat \<Rightarrow> 8 word list \<Rightarrow> nat \<Rightarrow> (fault + bool \<times> 8 word list) option" where
  "jitc_all F pool_size llvm_block_size values sz =
     (let reduced_size = add32 sz 3 div 4;
          trailing = sub32 (mul32 reduced_size 4) sz
      in case (if trailing \<noteq> 0 then LLVM_jitc_memset_async values sz trailing 1 [1]
               else Inr values) of
           Inl e \<Rightarrow> Some (Inl e)
         | Inr values1 \<Rightarrow>
             Option.bind
               (jitc_reduce F pool_size llvm_block_size UInt32 Op_And (as_uint32 values1) reduced_size)
               (\<lambda>r. case r of
                       Inl e \<Rightarrow> Some (Inl e)
                     | Inr w \<Rightarrow>
                         (let out = store_uint32 w
                          in Some (Inr ((out ! 0 AND out ! 1 AND out ! 2 AND out ! 3) \<noteq> 0, values1)))))"

definition jitc_any ::
  "32 word fpu \<Rightarrow> nat \<Rightarrow> nat \<Rightarrow> 8 word list \<Rightarrow> nat \<Rightarrow> (fault + bool \<times> 8 word list) option" where
  "jitc_any F pool_size llvm_block_size values sz =
     (let reduced_size = add32 sz 3 div 4;
          trailing = sub32 (mul32 reduced_size 4) sz
      in case (if trailing \<noteq> 0 then LLVM_jitc_memset_async values sz trailing 1 [0]
               else Inr values) of
           Inl e \<Rightarrow> Some (Inl e)
         | Inr values1 \<Rightarrow>
             Option.bind
               (jitc_reduce F pool_size llvm_block_size UInt32 Op_Or (as_uint32 values1) reduced_size)
               (\<lambda>r. case r of
                       Inl e \<Rightarrow> Some (Inl e)
                     | Inr w \<Rightarrow>
                         (let out = store_uint32 w
                          in Some (Inr ((out ! 0 OR out ! 1 OR out ! 2 OR out ! 3) \<noteq> 0, values1)))))"

subsection \<open>Block copy and block sum (\<^verbatim>\<open>jitc_block_copy\<close>, \<^verbatim>\<open>jitc_block_sum\<close>)\<close>

text \<open>
  \<^verbatim>\<open>memcpy(dst, src, size)\<close> on arrays of elements of \<open>tsize\<close> bytes: the whole elements,
  and the low bytes of the next element when \<open>size\<close> is not a multiple of \<open>tsize\<close> (which a
  product that wrapped around can be).
\<close>

definition memcpy_elems :: "nat \<Rightarrow> 'a::len word list \<Rightarrow> 'a word list \<Rightarrow> nat \<Rightarrow> 'a word list" where
  "memcpy_elems tsize dst src bytes =
     (if tsize = 0 then dst
      else
        (let n = bytes div tsize;
             r = bytes mod tsize;
             d1 = fold (\<lambda>i d. d[i := src ! i]) [0..<n] dst
         in if r = 0 then d1
            else d1[n := (d1 ! n AND NOT (mask (8 * r))) OR (src ! n AND mask (8 * r))]))"

text \<open>\<^verbatim>\<open>jitc_memcpy_async\<close> on the host: one work unit that copies.\<close>

definition jitc_memcpy_async ::
  "nat \<Rightarrow> 'a::len word list \<Rightarrow> 'a word list \<Rightarrow> nat \<Rightarrow> fault + 'a word list" where
  "jitc_memcpy_async tsize dst src bytes =
     jitc_submit_cpu (\<lambda>index d. Inr (memcpy_elems tsize d src bytes)) 1 dst"

text \<open>
  The two block operations. The pointers start at \<^verbatim>\<open>in_ + start\<close> and
  \<^verbatim>\<open>out_ + start * block_size\<close> (a product of 32 bits) and advance by one element per step.
\<close>

definition jitc_block_copy_create_T ::
  "'v list \<Rightarrow> 'v list \<Rightarrow> nat \<Rightarrow> nat \<Rightarrow> nat \<Rightarrow> 'v list" where
  "jitc_block_copy_create_T inp out start end block_size =
     fold (\<lambda>k out.
             fold (\<lambda>j out. out[mul32 start block_size + k * block_size + j := inp ! (start + k)])
               [0..<block_size] out)
       [0..<sub32 end start] out"

definition jitc_block_sum_create_T ::
  "('v \<Rightarrow> 'v \<Rightarrow> 'v) \<Rightarrow> 'v \<Rightarrow> 'v list \<Rightarrow> 'v list \<Rightarrow> nat \<Rightarrow> nat \<Rightarrow> nat \<Rightarrow> 'v list" where
  "jitc_block_sum_create_T add nought inp out start end block_size =
     fold (\<lambda>k out.
             out[start + k :=
                   fold (\<lambda>j sum. add sum (inp ! (mul32 start block_size + k * block_size + j)))
                     [0..<block_size] nought])
       [0..<sub32 end start] out"

fun jitc_block_copy_create ::
  "VarType \<Rightarrow> fault + ('a::len word list \<Rightarrow> 'a word list \<Rightarrow> nat \<Rightarrow> nat \<Rightarrow> nat \<Rightarrow> 'a word list)" where
  "jitc_block_copy_create UInt8 = Inr jitc_block_copy_create_T"
| "jitc_block_copy_create UInt16 = Inr jitc_block_copy_create_T"
| "jitc_block_copy_create UInt32 = Inr jitc_block_copy_create_T"
| "jitc_block_copy_create UInt64 = Inr jitc_block_copy_create_T"
| "jitc_block_copy_create Float32 = Inr jitc_block_copy_create_T"
| "jitc_block_copy_create Float64 = Inr jitc_block_copy_create_T"
| "jitc_block_copy_create _ = Inl (Raise ''jit_block_copy_create(): unsupported data type!'')"

fun jitc_block_sum_create ::
  "'a::len word fpu \<Rightarrow> VarType
     \<Rightarrow> fault + ('a word list \<Rightarrow> 'a word list \<Rightarrow> nat \<Rightarrow> nat \<Rightarrow> nat \<Rightarrow> 'a word list)" where
  "jitc_block_sum_create F UInt8 = Inr (jitc_block_sum_create_T (+) 0)"
| "jitc_block_sum_create F UInt16 = Inr (jitc_block_sum_create_T (+) 0)"
| "jitc_block_sum_create F UInt32 = Inr (jitc_block_sum_create_T (+) 0)"
| "jitc_block_sum_create F UInt64 = Inr (jitc_block_sum_create_T (+) 0)"
| "jitc_block_sum_create F Float32 = Inr (jitc_block_sum_create_T (fp_add F) 0)"
| "jitc_block_sum_create F Float64 = Inr (jitc_block_sum_create_T (fp_add F) 0)"
| "jitc_block_sum_create F _ = Inl (Raise ''jit_block_sum_create(): unsupported data type!'')"

fun make_int_type_unsigned :: "VarType \<Rightarrow> VarType" where
  "make_int_type_unsigned Int8 = UInt8"
| "make_int_type_unsigned Int16 = UInt16"
| "make_int_type_unsigned Int32 = UInt32"
| "make_int_type_unsigned Int64 = UInt64"
| "make_int_type_unsigned vt = vt"

text \<open>
  \<^verbatim>\<open>jitc_block_copy\<close> and \<^verbatim>\<open>jitc_block_sum\<close> on the host; the result is the output array.
  \<open>sz\<close> counts the input elements of the copy and the output elements of the sum.
\<close>

definition jitc_block_copy ::
  "nat \<Rightarrow> nat \<Rightarrow> VarType \<Rightarrow> 'a::len word list \<Rightarrow> 'a word list \<Rightarrow> nat \<Rightarrow> nat
     \<Rightarrow> fault + 'a word list" where
  "jitc_block_copy pool_size llvm_block_size vt0 inp out sz block_size =
     (if block_size = 0 then Inl (Raise ''jit_block_copy(): block_size cannot be zero!'')
      else if block_size = 1
      then jitc_memcpy_async (type_size vt0) out inp (mul32 sz (type_size vt0))
      else if pool_size > 1 \<and> llvm_block_size = 0 then Inl Trap
      else
        (let vt = make_int_type_unsigned vt0;
             work_unit_size = (if pool_size > 1 then llvm_block_size else sz);
             work_units = (if pool_size > 1
                           then sub32 (add32 sz work_unit_size) 1 div work_unit_size else 1)
         in case jitc_block_copy_create vt of
              Inl e \<Rightarrow> Inl e
            | Inr op \<Rightarrow>
                jitc_submit_cpu
                  (\<lambda>index out. Inr (op inp out (mul32 index work_unit_size)
                                       (min (add32 (mul32 index work_unit_size) work_unit_size) sz)
                                       block_size))
                  work_units out))"

definition jitc_block_sum ::
  "'a::len word fpu \<Rightarrow> nat \<Rightarrow> nat \<Rightarrow> VarType \<Rightarrow> 'a word list \<Rightarrow> 'a word list \<Rightarrow> nat \<Rightarrow> nat
     \<Rightarrow> fault + 'a word list" where
  "jitc_block_sum F pool_size llvm_block_size vt0 inp out sz block_size =
     (if block_size = 0 then Inl (Raise ''jit_block_sum(): block_size cannot be zero!'')
      else if block_size = 1
      then jitc_memcpy_async (type_size vt0) out inp (mul32 sz (type_size vt0))
      else if pool_size > 1 \<and> llvm_block_size = 0 then Inl Trap
      else
        (let vt = make_int_type_unsigned vt0;
             work_unit_size = (if pool_size > 1 then llvm_block_size else sz);
             work_units = (if pool_size > 1
                           then sub32 (add32 sz work_unit_size) 1 div work_unit_size else 1)
         in case jitc_block_sum_create F vt of
              Inl e \<Rightarrow> Inl e
            | Inr op \<Rightarrow>
                jitc_submit_cpu
                  (\<lambda>index out. Inr (op inp out (mul32 index work_unit_size)
                                       (min (add32 (mul32 index work_unit_size) work_unit_size) sz)
                                       block_size))
                  work_units out))"

subsection \<open>Bucketed permutation (\<^verbatim>\<open>jitc_mkperm\<close>)\<close>

text \<open>
  Phase 1 of a block: the histogram of the values of the block,
  \<^verbatim>\<open>buckets_local[ptr[i]]++\<close>. The source does not compare a value with \<open>bucket_count\<close>:
  a value that is not below it addresses memory outside the histogram, which is not part
  of the model, and the histogram stays as it is.
\<close>

definition mkperm_phase_1 :: "32 word list \<Rightarrow> nat \<Rightarrow> nat \<Rightarrow> nat \<Rightarrow> 32 word list" where
  "mkperm_phase_1 ptr bucket_count start end =
     fold (\<lambda>i buckets_local.
             (let v = unat (ptr ! i)
              in buckets_local[v := buckets_local ! v + 1]))
       (range32 start end) (replicate bucket_count 0)"

text \<open>
  The accumulation step: bucket by bucket and block by block, every counter is replaced
  by the position at which the block writes its first entry of the bucket, and every
  non-empty bucket gets a record of four numbers in \<open>offsets\<close>. The state of the loop is
  \<open>sum_total\<close> (the variable \<^verbatim>\<open>sum\<close>), \<open>unique_count_local\<close>, the histograms and \<open>offsets\<close>.
\<close>

definition mkperm_accumulate_bucket ::
  "nat \<Rightarrow> nat
     \<Rightarrow> 32 word \<times> 32 word \<times> 32 word list list \<times> 32 word list option
     \<Rightarrow> 32 word \<times> 32 word \<times> 32 word list list \<times> 32 word list option" where
  "mkperm_accumulate_bucket blocks i s =
     (case s of (sum_total, unique_count_local, buckets, offsets) \<Rightarrow>
        (case fold (\<lambda>j (sum_local, buckets).
                      (let v = buckets ! j ! i
                       in (sum_local + v, buckets[j := (buckets ! j)[i := sum_total + sum_local]])))
                [0..<blocks] (0, buckets) of
           (sum_local, buckets1) \<Rightarrow>
             if sum_local > 0
             then (sum_total + sum_local, unique_count_local + 1, buckets1,
                   map_option
                     (\<lambda>offs. offs[unat (unique_count_local * 4) := word_of_nat i,
                                   unat (unique_count_local * 4 + 1) := sum_total,
                                   unat (unique_count_local * 4 + 2) := sum_local,
                                   unat (unique_count_local * 4 + 3) := 0])
                     offsets)
             else (sum_total, unique_count_local, buckets1, offsets)))"

text \<open>Phase 2 of a block: every element is written to the next free position of its
  bucket, \<^verbatim>\<open>uint32_t idx = buckets_local[ptr[i]]++; perm[idx] = i;\<close>. Here too the
  source compares nothing: a counter outside the histogram and an entry outside \<open>perm\<close>
  are memory that the model does not hold.\<close>

definition mkperm_phase_2 ::
  "32 word list \<Rightarrow> nat \<Rightarrow> nat \<Rightarrow> 32 word list \<Rightarrow> 32 word list \<Rightarrow> 32 word list" where
  "mkperm_phase_2 ptr start end buckets_local perm =
     snd (fold (\<lambda>i (buckets_local, perm).
                  (let v = unat (ptr ! i);
                       idx = buckets_local ! v
                   in (buckets_local[v := idx + 1], perm[unat idx := word_of_nat i])))
            (range32 start end) (buckets_local, perm))"

text \<open>
  \<^verbatim>\<open>jitc_mkperm\<close> on the host. The result is the number of non-empty buckets; the state is
  the pair of \<open>perm\<close> and \<open>offsets\<close> (which the caller may leave out). The divisions by a
  block count or a block size of zero trap.
\<close>

definition jitc_mkperm ::
  "nat \<Rightarrow> nat \<Rightarrow> 32 word list \<Rightarrow> nat \<Rightarrow> nat \<Rightarrow> 32 word list \<times> 32 word list option
     \<Rightarrow> (fault + 32 word) \<times> 32 word list \<times> 32 word list option" where
  "jitc_mkperm pool_size llvm_block_size ptr sz bucket_count s =
     (case s of (perm, offsets) \<Rightarrow>
        if sz = 0 then (Inr 0, s)
        else if bucket_count = 0 then (Inl (Fail ''jit_mkperm(): bucket_count cannot be zero!''), s)
        else if pool_size > 1 \<and> mul32 pool_size 4 = 0 then (Inl Trap, s)
        else if pool_size > 1 \<and>
                max llvm_block_size (sub32 (add32 sz (mul32 pool_size 4)) 1 div mul32 pool_size 4) = 0
        then (Inl Trap, s)
        else
          (let block_size =
                 (if pool_size > 1
                  then max llvm_block_size
                         (sub32 (add32 sz (mul32 pool_size 4)) 1 div mul32 pool_size 4)
                  else sz);
               blocks = (if pool_size > 1 then sub32 (add32 sz block_size) 1 div block_size else 1)
           in case jitc_submit_cpu
                     (\<lambda>index buckets.
                        Inr (buckets[index :=
                               mkperm_phase_1 ptr bucket_count (mul32 index block_size)
                                 (min (add32 (mul32 index block_size) block_size) sz)]))
                     blocks (replicate blocks []) of
                Inl e \<Rightarrow> (Inl e, s)
              | Inr buckets \<Rightarrow>
                  (case fold (mkperm_accumulate_bucket blocks) [0..<bucket_count]
                          (0, 0, buckets, offsets) of
                     (sum_total, unique_count, buckets1, offsets1) \<Rightarrow>
                       (Inr unique_count,
                        fold (\<lambda>index perm.
                                mkperm_phase_2 ptr (mul32 index block_size)
                                  (min (add32 (mul32 index block_size) block_size) sz)
                                  (buckets1 ! index) perm)
                          [0..<blocks] perm,
                        offsets1))))"

subsection \<open>Notions used to state the invariants of the blockwise passes\<close>

text \<open>
  One step of the scan loop of \<^verbatim>\<open>sum_reduce_2\<close> on the pair of the accumulator and the
  memory.
\<close>

definition scan_body :: "bool \<Rightarrow> nat \<Rightarrow> nat \<Rightarrow> nat \<Rightarrow> 'v::comm_monoid_add \<times> 'v list \<Rightarrow> 'v \<times> 'v list" where
  "scan_body ex inp out i s = (case s of (accum, m) \<Rightarrow>
                  (let v = m ! (inp + i)
                   in if ex then (accum + v, m[out + i := accum])
                      else (accum + v, m[out + i := accum + v])))"

text \<open>
  \<open>blocks\<close> blocks of \<open>block_size\<close> elements cover \<open>sz\<close> elements, every block starts
  inside the array, and no block bound wraps around in 32 bits.
\<close>

definition block_cover :: "nat \<Rightarrow> nat \<Rightarrow> nat \<Rightarrow> bool" where
  "block_cover sz block_size blocks =
     (1 \<le> block_size \<and> sz < 2 ^ 32 \<and> sz \<le> blocks * block_size
      \<and> (\<forall>b<blocks. b * block_size < sz \<and> b * block_size + block_size < 2 ^ 32))"

text \<open>The sum of the elements of block \<open>b\<close>.\<close>

definition block_sum :: "'v::comm_monoid_add list \<Rightarrow> nat \<Rightarrow> nat \<Rightarrow> 'v" where
  "block_sum a bs b = sum_list (take (min (b * bs + bs) (length a) - b * bs) (drop (b * bs) a))"

text \<open>
  The positions of the non-zero bytes among the first \<open>n\<close> bytes of a mask, in ascending
  order, and their number as a 32-bit counter.
\<close>

definition nonzero_positions :: "8 word list \<Rightarrow> nat \<Rightarrow> nat list" where
  "nonzero_positions inp n = filter (\<lambda>i. inp ! i \<noteq> 0) [0..<n]"

definition nonzero_count :: "8 word list \<Rightarrow> nat \<Rightarrow> 32 word" where
  "nonzero_count inp n = word_of_nat (length (nonzero_positions inp n))"

section \<open>Filling device memory (\<^verbatim>\<open>CUDAThreadState::jitc_memset_async\<close>)\<close>

text \<open>
  The calls of the driver that \<^verbatim>\<open>jitc_memset_async\<close> and \<^verbatim>\<open>jitc_submit_gpu\<close> make on the
  stream of the thread, with the arguments that matter here: the address, the value and
  the count of a fill, and the launch dimensions of a kernel.
\<close>

datatype stream_call =
    CuMemsetD8Async nat "8 word" nat
  | CuMemsetD16Async nat "16 word" nat
  | CuMemsetD32Async nat "32 word" nat
  | CuEventCreate
  | CuEventRecord
  | CuLaunchKernel nat nat nat
  | CuStreamSynchronize

text \<open>
  The state a fill can touch: the calls enqueued on the stream, the answers the driver
  will give to the next calls, the two flags \<^verbatim>\<open>jitc_submit_gpu\<close> reads, and the widths of
  the entries of the kernel history.
\<close>

record cuda_state =
  stream_calls :: "stream_call list"
  stream_answers :: "CUresult list"
  flag_KernelHistory :: bool
  flag_LaunchBlocking :: bool
  kernel_history :: "nat list"

text \<open>A call of the driver under \<^verbatim>\<open>cuda_check\<close>: it is recorded, and an answer other than
  success is a fault.\<close>

definition stream_checked :: "stream_call \<Rightarrow> cuda_state \<Rightarrow> fault option \<times> cuda_state" where
  "stream_checked c s =
     (case stream_answers s of
        [] \<Rightarrow> (cuda_check CUDA_SUCCESS, s\<lparr>stream_calls := stream_calls s @ [c]\<rparr>)
      | r # rs \<Rightarrow> (cuda_check r, s\<lparr>stream_calls := stream_calls s @ [c], stream_answers := rs\<rparr>))"

fun stream_checked_seq :: "stream_call list \<Rightarrow> cuda_state \<Rightarrow> fault option \<times> cuda_state" where
  "stream_checked_seq [] s = (None, s)"
| "stream_checked_seq (c # cs) s =
     (case stream_checked c s of
        (Some e, s1) \<Rightarrow> (Some e, s1)
      | (None, s1) \<Rightarrow> stream_checked_seq cs s1)"

text \<open>\<^verbatim>\<open>jitc_submit_gpu\<close>: the launch, between the events of the kernel history when that
  flag is set, and followed by a synchronisation when launches block.\<close>

definition jitc_submit_gpu ::
  "nat \<Rightarrow> nat \<Rightarrow> nat \<Rightarrow> nat \<Rightarrow> cuda_state \<Rightarrow> fault option \<times> cuda_state" where
  "jitc_submit_gpu block_count thread_count shared_mem_bytes width s =
     (case stream_checked_seq
             ((if flag_KernelHistory s then [CuEventCreate, CuEventCreate, CuEventRecord] else [])
              @ [CuLaunchKernel block_count thread_count shared_mem_bytes]
              @ (if flag_LaunchBlocking s then [CuStreamSynchronize] else [])
              @ (if flag_KernelHistory s then [CuEventRecord] else [])) s of
        (Some e, s1) \<Rightarrow> (Some e, s1)
      | (None, s1) \<Rightarrow>
          (None, if flag_KernelHistory s
                 then s1\<lparr>kernel_history := kernel_history s1 @ [width]\<rparr> else s1))"

text \<open>
  \<^verbatim>\<open>jitc_memset_async(ptr, size_, isize, src)\<close>. \<open>n\<close> is the argument \<^verbatim>\<open>size_\<close>, and
  \<open>src\<close> holds the bytes of the fill value.
  \<open>launch_config\<close> is \<^verbatim>\<open>Device::get_launch_config\<close>, which is outside the sources: it
  gives the block count and the thread count for a number of elements.
\<close>

definition CUDA_jitc_memset_async ::
  "(nat \<Rightarrow> nat \<times> nat) \<Rightarrow> nat \<Rightarrow> nat \<Rightarrow> nat \<Rightarrow> 8 word list \<Rightarrow> cuda_state
     \<Rightarrow> fault option \<times> cuda_state" where
  "CUDA_jitc_memset_async launch_config ptr n isize0 src s =
     (if isize0 \<noteq> 1 \<and> isize0 \<noteq> 2 \<and> isize0 \<noteq> 4 \<and> isize0 \<noteq> 8
      then (Some (Raise ''CUDAThreadState::jit_memset_async(): invalid element size (must be 1, 2, 4, or 8)!''), s)
      else if n = 0 then (None, s)
      else
        (let is_zero = list_all (\<lambda>b. b = 0) (take isize0 src);
             sz = (if is_zero then n * isize0 else n);
             isize = (if is_zero then 1 else isize0)
         in if isize = 1 then stream_checked (CuMemsetD8Async ptr (src ! 0) sz) s
            else if isize = 2
            then stream_checked
                   (CuMemsetD16Async ptr (ucast (src ! 0) OR push_bit 8 (ucast (src ! 1))) sz) s
            else if isize = 4
            then stream_checked
                   (CuMemsetD32Async ptr
                      (ucast (src ! 0) OR push_bit 8 (ucast (src ! 1))
                         OR push_bit 16 (ucast (src ! 2)) OR push_bit 24 (ucast (src ! 3))) sz) s
            else (case launch_config n of
                    (block_count, thread_count) \<Rightarrow>
                      jitc_submit_gpu block_count thread_count 0 n s)))"


section \<open>Inputs of the example runs\<close>

text \<open>A run on the CUDA backend whose driver reports out-of-memory twice.\<close>

definition ext0 :: externals where
  "ext0 = \<lparr>disk_kernel = None,
           compiled_kernel = \<lparr>kernel_data = Some 1, kernel_size = 64, cuda_block_size = 0\<rparr>,
           optix_cache_hit = False, occupancy_block_size = 128\<rparr>"

definition s0 :: run_state where
  "s0 = \<lparr>kernel_cache = (\<lambda>_. None), kernel_hits = 0, kernel_soft_misses = 0,
         kernel_hard_misses = 0, kernel_launches = 0, calls = [],
         driver = [CUDA_ERROR_OUT_OF_MEMORY, CUDA_ERROR_OUT_OF_MEMORY]\<rparr>"



definition env0 :: jit_env where
  "env0 = \<lparr>slots = (\<lambda>p. if p = 0 then 7 else if p = 1 then 8 else 0),
           flag_PostponeSideEffects = 0, side_effects_scheduled = 5, jit_calls = []\<rparr>"

definition loop0 :: Loop where
  "loop0 = fst (snd (put 1 1 (snd (put 0 10 (Loop_new ''MyLoop'' True 0, env0)))))"


text \<open>A traversal that scheduled four variables, of sizes 1, 10, 10 and 1.\<close>

definition traversed0 :: "ScheduledVariable list" where
  "traversed0 = [\<lparr>sv_size = 1, sv_index = 5\<rparr>, \<lparr>sv_size = 10, sv_index = 3\<rparr>,
                 \<lparr>sv_size = 10, sv_index = 2\<rparr>, \<lparr>sv_size = 1, sv_index = 4\<rparr>]"


text \<open>A group of three variables of size 10 on the LLVM backend: an evaluated input, an
  output and a temporary.\<close>

definition var0 :: Variable where
  "var0 = \<lparr>v_backend = LLVM, v_type = Float32, v_size = 10, v_data = None,
           v_stmt = Some ''add'', v_value = 0, literal = False, output_flag = False,
           side_effect = False, optix = False, ref_count_int = 1, ref_count_ext = 0,
           ref_count_se = 0, param_type = Register, param_offset = 0, reg_index = 0\<rparr>"

definition asm0 :: asm_state where
  "asm0 = \<lparr>variables = (\<lambda>index. if index = 2 then Some (var0\<lparr>v_data := Some 4096\<rparr>)
                                   else if index = 3 then Some (var0\<lparr>output_flag := True, ref_count_ext := 1\<rparr>)
                                   else if index = 7 then Some var0 else None),
           kernel_params = [], kernel_params_global = None, kernel_param_count = 0,
           n_params_in = 0, n_params_out = 0, n_side_effects = 0, n_regs = 0, n_regs_used = 0,
           uses_optix = False, heap_top = 8192, warnings = []\<rparr>"

definition schedule0 :: "ScheduledVariable list" where
  "schedule0 = [\<lparr>sv_size = 10, sv_index = 2\<rparr>, \<lparr>sv_size = 10, sv_index = 3\<rparr>,
                \<lparr>sv_size = 10, sv_index = 7\<rparr>]"

definition group0 :: ScheduledGroup where
  "group0 = \<lparr>sg_size = 10, sg_start = 0, sg_end = 3\<rparr>"


text \<open>
  A stand-in for the floating-point operations in the example runs: the runs on integer
  element types never call them, and the other runs only ask whether the call raises.
\<close>

definition fpu0 :: "32 word fpu" where
  "fpu0 = \<lparr>fp_add = (\<lambda>a b. 0), fp_mul = (\<lambda>a b. 0), fp_less = (\<lambda>a b. False),
           fp_one = 0, fp_infinity = 0, fp_neg_infinity = 0\<rparr>"


text \<open>A stream without pending calls, on which the driver answers success.\<close>

definition stream0 :: cuda_state where
  "stream0 = \<lparr>stream_calls = [], stream_answers = [], flag_KernelHistory = False,
              flag_LaunchBlocking = False, kernel_history = []\<rparr>"






section \<open>Verification\<close>

subsection \<open>Module load and its single retry\<close>

lemma build_kernel_cuda:
  "\<exists>hit k pre. build_kernel ext oe CUDA False s = (Inr (hit, k), s\<lparr>calls := calls s @ pre\<rparr>)
      \<and> Call_cuModuleLoadData \<notin> set pre \<and> Call_jitc_malloc_trim \<notin> set pre"
  by (cases "disk_kernel ext"; cases "kernel_data (compiled_kernel ext)")
     (auto simp: build_kernel_def log_call_def Let_def)

lemma load_module_oom:
  "driver s = CUDA_ERROR_OUT_OF_MEMORY # rs \<Longrightarrow>
   load_module s = ((case rs of [] \<Rightarrow> CUDA_SUCCESS | r # _ \<Rightarrow> r),
      s\<lparr>calls := calls s @ [Call_cuModuleLoadData, Call_jitc_malloc_trim, Call_cuModuleLoadData],
        driver := tl rs\<rparr>)"
  by (cases rs) (simp_all add: load_module_def cu_call_def log_call_def)

lemma load_module_other:
  "driver s = r # rs \<Longrightarrow> r \<noteq> CUDA_ERROR_OUT_OF_MEMORY \<Longrightarrow>
   load_module s = (r, s\<lparr>calls := calls s @ [Call_cuModuleLoadData], driver := rs\<rparr>)"
  by (simp add: load_module_def cu_call_def log_call_def)

lemma load_module_cases:
  assumes "driver s = r1 # rs"
  shows "\<exists>s1. load_module s =
           (if r1 = CUDA_ERROR_OUT_OF_MEMORY then (case rs of [] \<Rightarrow> CUDA_SUCCESS | r2 # _ \<Rightarrow> r2) else r1, s1)
         \<and> calls s1 = calls s @ (if r1 = CUDA_ERROR_OUT_OF_MEMORY
               then [Call_cuModuleLoadData, Call_jitc_malloc_trim, Call_cuModuleLoadData]
               else [Call_cuModuleLoadData])
         \<and> kernel_cache s1 = kernel_cache s"
  using assms by (simp add: load_module_oom load_module_other)

lemma cu_checked_seq_calls:
  "cu_checked_seq cs s = (r, s') \<Longrightarrow>
     \<exists>post. calls s' = calls s @ post \<and> set post \<subseteq> set cs \<and> kernel_cache s' = kernel_cache s"
proof (induction cs arbitrary: s)
  case Nil then show ?case by auto
next
  case (Cons c cs)
  obtain ret s1 where c1: "cu_call c s = (ret, s1)" by (cases "cu_call c s")
  then have s1: "calls s1 = calls s @ [c]" "kernel_cache s1 = kernel_cache s"
    by (auto simp: cu_call_def log_call_def split: list.splits)
  show ?case
  proof (cases "cuda_check ret")
    case None
    with Cons.prems c1 have "cu_checked_seq cs s1 = (r, s')" by (simp add: cu_checked_def)
    from Cons.IH[OF this] s1 show ?thesis by auto
  next
    case (Some e)
    with Cons.prems c1 have "s' = s1" by (simp add: cu_checked_def)
    with s1 show ?thesis by auto
  qed
qed

lemma launch_calls:
  "launch oe CUDA False s = (r, s') \<Longrightarrow>
     calls s' = calls s @ [Call_cuLaunchKernel]"
  by (auto simp: launch_def cu_checked_def cu_call_def log_call_def split: list.splits)

lemma link_cuda_calls:
  assumes drv: "driver s = r1 # rs"
      and lnk: "link_cuda ext k s = (r, s')"
  shows "\<exists>post. calls s' = calls s @ (if r1 = CUDA_ERROR_OUT_OF_MEMORY
               then [Call_cuModuleLoadData, Call_jitc_malloc_trim, Call_cuModuleLoadData]
               else [Call_cuModuleLoadData]) @ post
            \<and> Call_cuModuleLoadData \<notin> set post \<and> Call_jitc_malloc_trim \<notin> set post
            \<and> kernel_cache s' = kernel_cache s
            \<and> ((if r1 = CUDA_ERROR_OUT_OF_MEMORY then (case rs of [] \<Rightarrow> CUDA_SUCCESS | r2 # _ \<Rightarrow> r2) else r1)
                   \<noteq> CUDA_SUCCESS
                 \<longrightarrow> post = [] \<and> (\<exists>msg. r = Inl (Fail msg)))"
proof -
  let ?ret = "if r1 = CUDA_ERROR_OUT_OF_MEMORY then (case rs of [] \<Rightarrow> CUDA_SUCCESS | r2 # _ \<Rightarrow> r2) else r1"
  let ?ld = "if r1 = CUDA_ERROR_OUT_OF_MEMORY
               then [Call_cuModuleLoadData, Call_jitc_malloc_trim, Call_cuModuleLoadData]
               else [Call_cuModuleLoadData]"
  from load_module_cases[OF drv] obtain s1 where
    s1: "load_module s = (?ret, s1)" "calls s1 = calls s @ ?ld" "kernel_cache s1 = kernel_cache s"
    by blast
  show ?thesis
  proof (cases "?ret = CUDA_SUCCESS")
    case False
    then have "cuda_check ?ret = Some (Fail ''cuda_check(): API error'')"
      by (simp add: cuda_check_def)
    with lnk s1(1) have "r = Inl (Fail ''cuda_check(): API error'')" "s' = s1"
      by (simp_all add: link_cuda_def)
    with s1 False show ?thesis by auto
  next
    case True
    then have cc: "cuda_check ?ret = None" by (simp add: cuda_check_def)
    obtain q s2 where q: "cu_checked_seq [Call_cuModuleGetFunction, Call_cuOccupancyMaxPotentialBlockSize,
                                Call_cuFuncSetAttribute, Call_cuFuncSetAttribute] s1 = (q, s2)"
      by (cases "cu_checked_seq [Call_cuModuleGetFunction, Call_cuOccupancyMaxPotentialBlockSize,
                                Call_cuFuncSetAttribute, Call_cuFuncSetAttribute] s1")
    from cu_checked_seq_calls[OF q] obtain post where post: "calls s2 = calls s1 @ post"
       "set post \<subseteq> {Call_cuModuleGetFunction, Call_cuOccupancyMaxPotentialBlockSize, Call_cuFuncSetAttribute}"
       "kernel_cache s2 = kernel_cache s1" by auto
    from lnk s1(1) cc q have "s' = s2"
      by (auto simp: link_cuda_def split: option.splits)
    with post s1 True show ?thesis by auto
  qed
qed

text \<open>
  Claim C9. On a cache miss on the CUDA backend without OptiX, \<^verbatim>\<open>jitc_run\<close> loads the
  module once; if the driver answers out-of-memory, it trims the allocator's pools and
  loads the module a second time, and never a third: besides these calls (\<open>pre\<close> before,
  \<open>post\<close> after) the run neither loads a module nor trims. When the answer that remains
  (the second one after out-of-memory, the first one otherwise) is not success, the call
  ends there with a fatal error and the cache is as before.
\<close>

theorem jitc_run_module_load_retry:
  assumes miss: "kernel_cache s (buffer, device, 0) = None"
      and drv: "driver s = r1 # rs"
      and run: "jitc_run ext optix_enabled CUDA device False pco_flags buffer s = (res, s')"
  shows "\<exists>pre post.
           calls s' = calls s @ pre @
              (if r1 = CUDA_ERROR_OUT_OF_MEMORY
               then [Call_cuModuleLoadData, Call_jitc_malloc_trim, Call_cuModuleLoadData]
               else [Call_cuModuleLoadData]) @ post
         \<and> Call_cuModuleLoadData \<notin> set (pre @ post) \<and> Call_jitc_malloc_trim \<notin> set (pre @ post)
         \<and> ((if r1 = CUDA_ERROR_OUT_OF_MEMORY
               then (case rs of [] \<Rightarrow> CUDA_SUCCESS | r2 # _ \<Rightarrow> r2) else r1) \<noteq> CUDA_SUCCESS
              \<longrightarrow> post = [] \<and> (\<exists>msg. res = Some (Fail msg)) \<and> kernel_cache s' = kernel_cache s)"
proof -
  let ?ret = "if r1 = CUDA_ERROR_OUT_OF_MEMORY then (case rs of [] \<Rightarrow> CUDA_SUCCESS | r2 # _ \<Rightarrow> r2) else r1"
  let ?ld = "if r1 = CUDA_ERROR_OUT_OF_MEMORY
               then [Call_cuModuleLoadData, Call_jitc_malloc_trim, Call_cuModuleLoadData]
               else [Call_cuModuleLoadData]"
  from build_kernel_cuda[of ext optix_enabled s] obtain hit k pre where
    b: "build_kernel ext optix_enabled CUDA False s = (Inr (hit, k), s\<lparr>calls := calls s @ pre\<rparr>)"
    and pre: "Call_cuModuleLoadData \<notin> set pre" "Call_jitc_malloc_trim \<notin> set pre"
    by blast
  let ?s1 = "s\<lparr>calls := calls s @ pre\<rparr>"
  obtain r s2 where l: "link_cuda ext k ?s1 = (r, s2)" by (cases "link_cuda ext k ?s1")
  have "driver ?s1 = r1 # rs" using drv by simp
  from link_cuda_calls[OF this l] obtain post where
    post: "calls s2 = calls s @ pre @ ?ld @ post"
      "Call_cuModuleLoadData \<notin> set post" "Call_jitc_malloc_trim \<notin> set post"
      "kernel_cache s2 = kernel_cache s"
      "?ret \<noteq> CUDA_SUCCESS \<longrightarrow> post = [] \<and> (\<exists>msg. r = Inl (Fail msg))"
    by auto
  show ?thesis
  proof (cases r)
    case (Inl e)
    with run miss b l have "res = Some e" "s' = s2"
      by (simp_all add: jitc_run_def)
    with post pre Inl show ?thesis
      by (intro exI[of _ pre] exI[of _ post]) auto
  next
    case (Inr k')
    with post(5) have ok: "?ret = CUDA_SUCCESS" by auto
    let ?s3 = "s2\<lparr>kernel_cache := (kernel_cache s2)((buffer, device, 0) \<mapsto> k')\<rparr>"
    let ?s4 = "if hit then ?s3\<lparr>kernel_soft_misses := kernel_soft_misses ?s3 + 1\<rparr>
               else ?s3\<lparr>kernel_hard_misses := kernel_hard_misses ?s3 + 1\<rparr>"
    let ?s5 = "?s4\<lparr>kernel_launches := kernel_launches ?s4 + 1\<rparr>"
    from run miss b l Inr have "launch optix_enabled CUDA False ?s5 = (res, s')"
      by (simp add: jitc_run_def Let_def)
    from launch_calls[OF this] have "calls s' = calls s2 @ [Call_cuLaunchKernel]"
      by simp
    with post pre ok show ?thesis
      by (intro exI[of _ pre] exI[of _ "post @ [Call_cuLaunchKernel]"]) auto
  qed
qed

lemma jitc_run_oom_twice: "jitc_run ext0 False CUDA 0 False 0 ''k'' s0 =
   (Some (Fail ''cuda_check(): API error''),
    s0\<lparr>calls := [Call_jitc_kernel_load, Call_jitc_cuda_compile, Call_jitc_kernel_write,
        Call_cuModuleLoadData, Call_jitc_malloc_trim, Call_cuModuleLoadData], driver := []\<rparr>)"
  by (simp add: jitc_run_def s0_def ext0_def build_kernel_def log_call_def link_cuda_def load_module_def
      cu_call_def cuda_check_def CUDA_SUCCESS_def CUDA_ERROR_OUT_OF_MEMORY_def)

theorem jitc_run_module_load_retry_witness:
  "kernel_cache s0 (''k'', 0, 0) = None
   \<and> driver s0 = [CUDA_ERROR_OUT_OF_MEMORY, CUDA_ERROR_OUT_OF_MEMORY]
   \<and> (\<exists>pre. calls (snd (jitc_run ext0 False CUDA 0 False 0 ''k'' s0)) =
          calls s0 @ pre @ [Call_cuModuleLoadData, Call_jitc_malloc_trim, Call_cuModuleLoadData])
   \<and> (\<exists>msg. fst (jitc_run ext0 False CUDA 0 False 0 ''k'' s0) = Some (Fail msg))"
proof -
  have h1: "kernel_cache s0 (''k'', 0, 0) = None" by (simp add: s0_def)
  have h2: "driver s0 = CUDA_ERROR_OUT_OF_MEMORY # [CUDA_ERROR_OUT_OF_MEMORY]" by (simp add: s0_def)
  have ne: "CUDA_ERROR_OUT_OF_MEMORY \<noteq> CUDA_SUCCESS"
    by (simp add: CUDA_SUCCESS_def CUDA_ERROR_OUT_OF_MEMORY_def)
  from jitc_run_module_load_retry[OF h1 h2 surjective_pairing] ne h1 h2
  show ?thesis by fastforce
qed

subsection \<open>The loop builder in recording mode\<close>

lemma jit_simps [simp]:
  "slots (jit c env) = slots env"
  "flag_PostponeSideEffects (jit c env) = flag_PostponeSideEffects env"
  "side_effects_scheduled (jit c env) = side_effects_scheduled env"
  "jit_calls (jit c env) = jit_calls env @ [c]"
  by (simp_all add: jit_def)

lemma jit_set_flag_simps [simp]:
  "slots (jit_set_flag v env) = slots env"
  "flag_PostponeSideEffects (jit_set_flag v env) = v"
  "side_effects_scheduled (jit_set_flag v env) = side_effects_scheduled env"
  "jit_calls (jit_set_flag v env) = jit_calls env @ [Jit_set_flag_PostponeSideEffects v]"
  by (simp_all add: jit_set_flag_def)







lemma loop0_eq:
  "loop0 = \<lparr>m_name = ''MyLoop'', m_index_in = [7, 8], m_index_body = [], m_index_out = [],
      m_index_p = [0, 1], m_cond = 0, m_state = 0, m_se_offset = - 1, m_se_flag = 0, m_size = 10,
      m_record = True\<rparr>"
  by (simp add: loop0_def put_def Loop_new_def env0_def Let_def)




subsection \<open>Ordering and grouping of the schedule\<close>

lemma mset_insert_by: "mset (insert_by cmp x xs) = add_mset x (mset xs)"
  by (induction xs) auto

lemma mset_std_sort: "mset (std_sort cmp xs) = mset xs"
  by (induction xs) (auto simp: std_sort_def mset_insert_by)

lemma set_insert_by: "set (insert_by cmp x xs) = insert x (set xs)"
  by (induction xs) auto

lemma schedule_le_trans: "schedule_le a b \<Longrightarrow> schedule_le b c \<Longrightarrow> schedule_le a c"
  by (auto simp: schedule_le_def)

lemma schedule_less_le: "schedule_less a b \<Longrightarrow> schedule_le a b"
  by (auto simp: schedule_less_def schedule_le_def split: if_splits)

lemma not_schedule_less_le: "\<not> schedule_less a b \<Longrightarrow> schedule_le b a"
  by (auto simp: schedule_less_def schedule_le_def split: if_splits)

lemma sorted_insert_by:
  "sorted_wrt schedule_le xs \<Longrightarrow> sorted_wrt schedule_le (insert_by schedule_less x xs)"
proof (induction xs)
  case Nil then show ?case by simp
next
  case (Cons y ys)
  show ?case
  proof (cases "schedule_less x y")
    case True
    then have "schedule_le x y" by (rule schedule_less_le)
    with Cons.prems True show ?thesis by (auto intro: schedule_le_trans)
  next
    case False
    then have "schedule_le y x" by (rule not_schedule_less_le)
    with Cons False show ?thesis by (auto simp: set_insert_by)
  qed
qed

lemma sorted_std_sort: "sorted_wrt schedule_le (std_sort schedule_less xs)"
  by (induction xs) (auto simp: std_sort_def sorted_insert_by)

lemma tiles_le: "tiles schedule lo gs hi \<Longrightarrow> lo \<le> hi"
  by (induction gs arbitrary: lo) (auto dest: less_imp_le order_trans)

lemma tiles_append:
  "tiles schedule lo gs mid \<Longrightarrow> tiles schedule mid gs' hi \<Longrightarrow> tiles schedule lo (gs @ gs') hi"
  by (induction gs arbitrary: lo) auto

lemma tiles_ends:
  "tiles schedule lo gs hi \<Longrightarrow> gs \<noteq> [] \<Longrightarrow> sg_start (hd gs) = lo \<and> sg_end (last gs) = hi"
  by (induction gs arbitrary: lo) (auto split: if_splits)

lemma tiles_adjacent:
  "tiles schedule lo gs hi \<Longrightarrow> Suc k < length gs \<Longrightarrow> sg_end (gs ! k) = sg_start (gs ! Suc k)"
proof (induction gs arbitrary: lo k)
  case Nil then show ?case by simp
next
  case (Cons g gs)
  show ?case
  proof (cases k)
    case 0
    with Cons.prems show ?thesis by (cases gs) auto
  next
    case (Suc j)
    with Cons show ?thesis by auto
  qed
qed

lemma tiles_member:
  "tiles schedule lo gs hi \<Longrightarrow> g \<in> set gs \<Longrightarrow>
     lo \<le> sg_start g \<and> sg_start g < sg_end g \<and> sg_end g \<le> hi
     \<and> (\<forall>i. sg_start g \<le> i \<and> i < sg_end g \<longrightarrow> sv_size (schedule ! i) = sg_size g)"
proof (induction gs arbitrary: lo)
  case Nil then show ?case by simp
next
  case (Cons a gs)
  from Cons.prems(1) have t: "tiles schedule (sg_end a) gs hi" and a: "sg_start a = lo" "lo < sg_end a"
    "\<forall>i. lo \<le> i \<and> i < sg_end a \<longrightarrow> sv_size (schedule ! i) = sg_size a" by auto
  from tiles_le[OF t] have le: "sg_end a \<le> hi" .
  show ?case
  proof (cases "g = a")
    case True
    with a le show ?thesis by auto
  next
    case False
    with Cons.prems have "g \<in> set gs" by auto
    from Cons.IH[OF t this] a show ?thesis by auto
  qed
qed

lemma successively_nth:
  "successively P xs \<Longrightarrow> Suc k < length xs \<Longrightarrow> P (xs ! k) (xs ! Suc k)"
proof (induction xs arbitrary: k)
  case Nil then show ?case by simp
next
  case (Cons x xs)
  show ?case
  proof (cases k)
    case 0
    with Cons.prems show ?thesis by (cases xs) auto
  next
    case (Suc j)
    with Cons show ?thesis by (cases xs) auto
  qed
qed

lemma successively_snoc:
  "successively P xs \<Longrightarrow> (xs \<noteq> [] \<longrightarrow> P (last xs) y) \<Longrightarrow> successively P (xs @ [y])"
  by (cases "xs = []") (auto simp: successively_append_iff)

lemma group_loop_inv:
  assumes "group_loop schedule cur i gs = (cur', gs')"
      and "length schedule < 2 ^ 32"
      and "cur < i" and "i \<le> length schedule"
      and "tiles schedule 0 gs cur"
      and "\<forall>k. cur \<le> k \<and> k < i \<longrightarrow> sv_size (schedule ! k) = sv_size (schedule ! cur)"
      and "successively (\<lambda>a b. sg_size a \<noteq> sg_size b) gs"
      and "gs \<noteq> [] \<longrightarrow> sg_size (last gs) \<noteq> sv_size (schedule ! cur)"
  shows "cur' < length schedule \<and> tiles schedule 0 gs' cur'
       \<and> (\<forall>k. cur' \<le> k \<and> k < length schedule \<longrightarrow> sv_size (schedule ! k) = sv_size (schedule ! cur'))
       \<and> successively (\<lambda>a b. sg_size a \<noteq> sg_size b) gs'
       \<and> (gs' \<noteq> [] \<longrightarrow> sg_size (last gs') \<noteq> sv_size (schedule ! cur'))"
  using assms
proof (induction schedule cur i gs rule: group_loop.induct)
  case (1 schedule cur i groups)
  note run0 = "1.prems"(1) and len = "1.prems"(2) and ci = "1.prems"(3) and il = "1.prems"(4)
    and til = "1.prems"(5) and const = "1.prems"(6) and succ = "1.prems"(7) and lst = "1.prems"(8)
  have n: "u32 (length schedule) = length schedule" using len by (simp add: u32_def)
  have prev: "sv_size (schedule ! (i - 1)) = sv_size (schedule ! cur)"
  proof -
    have "cur \<le> i - 1 \<and> i - 1 < i" using ci by arith
    then show ?thesis using const by blast
  qed
  show ?case
  proof (cases "i < length schedule")
    case False
    then have e: "i = length schedule" using il by simp
    from False n have nlt: "\<not> i < u32 (length schedule)" by simp
    from run0 nlt have r: "cur' = cur" "gs' = groups"
      by (simp_all add: group_loop.simps[of schedule cur i groups])
    have "cur < length schedule" using ci e by simp
    moreover have "\<forall>k. cur \<le> k \<and> k < length schedule \<longrightarrow>
                     sv_size (schedule ! k) = sv_size (schedule ! cur)"
      using const unfolding e .
    ultimately show ?thesis unfolding r using til succ lst by blast
  next
    case True
    then have lt: "i < u32 (length schedule)" using n by simp
    show ?thesis
    proof (cases "sv_size (schedule ! (i - 1)) \<noteq> sv_size (schedule ! i)")
      case diff: True
      define g where "g = \<lparr>sg_size = sv_size (schedule ! cur), sg_start = cur, sg_end = i\<rparr>"
      from run0 lt diff
      have run: "group_loop schedule i (Suc i) (groups @ [g]) = (cur', gs')"
        by (simp add: group_loop.simps[of schedule cur i groups] g_def)
      have "tiles schedule cur [g] i =
              (cur < i \<and> (\<forall>k. cur \<le> k \<and> k < i \<longrightarrow>
                  sv_size (schedule ! k) = sv_size (schedule ! cur)))"
        by (auto simp: g_def)
      with ci const have tg: "tiles schedule cur [g] i" by blast
      have t: "tiles schedule 0 (groups @ [g]) i"
        using til tg by (rule tiles_append)
      have s: "successively (\<lambda>a b. sg_size a \<noteq> sg_size b) (groups @ [g])"
        using succ lst by (intro successively_snoc) (simp_all add: g_def)
      have c: "\<forall>k. i \<le> k \<and> k < Suc i \<longrightarrow> sv_size (schedule ! k) = sv_size (schedule ! i)"
      proof (intro allI impI)
        fix k assume "i \<le> k \<and> k < Suc i"
        then have "k = i" by arith
        then show "sv_size (schedule ! k) = sv_size (schedule ! i)" by simp
      qed
      have l: "groups @ [g] \<noteq> [] \<longrightarrow> sg_size (last (groups @ [g])) \<noteq> sv_size (schedule ! i)"
        using prev diff by (simp add: g_def)
      have a: "i < Suc i" "Suc i \<le> length schedule" using True by simp_all
      show ?thesis
        using "1.IH"(1)[OF lt diff run[unfolded g_def] len a t[unfolded g_def] c s[unfolded g_def] l[unfolded g_def]] .
    next
      case same: False
      from run0 lt same
      have run: "group_loop schedule cur (Suc i) groups = (cur', gs')"
        by (simp add: group_loop.simps[of schedule cur i groups])
      have c: "\<forall>k. cur \<le> k \<and> k < Suc i \<longrightarrow> sv_size (schedule ! k) = sv_size (schedule ! cur)"
      proof (intro allI impI)
        fix k assume k: "cur \<le> k \<and> k < Suc i"
        show "sv_size (schedule ! k) = sv_size (schedule ! cur)"
        proof (cases "k = i")
          case True
          with same prev show ?thesis by simp
        next
          case False
          with k have "cur \<le> k \<and> k < i" by arith
          then show ?thesis using const by blast
        qed
      qed
      have a: "cur < Suc i" "Suc i \<le> length schedule" using True ci by simp_all
      show ?thesis
        using "1.IH"(2)[OF lt _ run len a til c succ lst] same by blast
    qed
  qed
qed


lemma sorted_first_last_all:
  assumes "sorted_wrt schedule_le xs" "xs \<noteq> []"
      and "sv_size (xs ! 0) = sv_size (xs ! (length xs - 1))" "k < length xs"
  shows "sv_size (xs ! k) = sv_size (xs ! 0)"
proof -
  have a: "sv_size (xs ! k) \<le> sv_size (xs ! 0)"
  proof (cases "k = 0")
    case True then show ?thesis by simp
  next
    case False
    then have "schedule_le (xs ! 0) (xs ! k)"
      using assms(1,4) by (simp add: sorted_wrt_iff_nth_less)
    then show ?thesis by (auto simp: schedule_le_def)
  qed
  have b: "sv_size (xs ! (length xs - 1)) \<le> sv_size (xs ! k)"
  proof (cases "k = length xs - 1")
    case True then show ?thesis by simp
  next
    case False
    then have "schedule_le (xs ! k) (xs ! (length xs - 1))"
      using assms(1,2,4) by (simp add: sorted_wrt_iff_nth_less)
    then show ?thesis by (auto simp: schedule_le_def)
  qed
  from a b assms(3) show ?thesis by simp
qed



lemma tiles_single:
  "lo < hi \<Longrightarrow> \<forall>i. lo \<le> i \<and> i < hi \<longrightarrow> sv_size (schedule ! i) = sz \<Longrightarrow>
     tiles schedule lo [\<lparr>sg_size = sz, sg_start = lo, sg_end = hi\<rparr>] hi"
  by simp

lemma schedule_groups_tiles:
  assumes srt: "sorted_wrt schedule_le schedule" and ne: "schedule \<noteq> []"
      and len: "length schedule < 2 ^ 32"
  shows "tiles schedule 0 (schedule_groups schedule) (length schedule)
       \<and> successively (\<lambda>a b. sg_size a \<noteq> sg_size b) (schedule_groups schedule)
       \<and> schedule_groups schedule \<noteq> []"
proof -
  have n: "u32 (length schedule) = length schedule" using len by (simp add: u32_def)
  have pos: "0 < length schedule" using ne by simp
  show ?thesis
  proof (cases "sv_size (schedule ! 0) = sv_size (schedule ! (length schedule - 1))")
    case True
    have all: "\<forall>i. 0 \<le> i \<and> i < length schedule \<longrightarrow> sv_size (schedule ! i) = sv_size (schedule ! 0)"
      using sorted_first_last_all[OF srt ne True] by blast
    have g: "schedule_groups schedule =
               [\<lparr>sg_size = sv_size (schedule ! 0), sg_start = 0, sg_end = length schedule\<rparr>]"
      using True n by (simp add: schedule_groups_def)
    have tl: "tiles schedule 0 [\<lparr>sg_size = sv_size (schedule ! 0), sg_start = 0, sg_end = length schedule\<rparr>]
            (length schedule)"
      using pos all by (rule tiles_single)
    show ?thesis unfolding g by (intro conjI tl) simp_all
  next
    case False
    obtain cur gs where gl: "group_loop schedule 0 1 [] = (cur, gs)"
      by (cases "group_loop schedule 0 1 []")
    have one: "(1::nat) \<le> length schedule" using pos by arith
    have c0: "\<forall>k. 0 \<le> k \<and> k < (1::nat) \<longrightarrow> sv_size (schedule ! k) = sv_size (schedule ! 0)"
      by simp
    have p1: "(0::nat) < 1" by simp
    have p2: "tiles schedule 0 [] 0" by simp
    have p3: "successively (\<lambda>a b. sg_size a \<noteq> sg_size b) []" by simp
    have p4: "([]::ScheduledGroup list) \<noteq> [] \<longrightarrow> sg_size (last []) \<noteq> sv_size (schedule ! 0)" by simp
    note I = group_loop_inv[OF gl len p1 one p2 c0 p3 p4]
    have inv: "cur < length schedule" "tiles schedule 0 gs cur"
      "\<forall>k. cur \<le> k \<and> k < length schedule \<longrightarrow> sv_size (schedule ! k) = sv_size (schedule ! cur)"
      "successively (\<lambda>a b. sg_size a \<noteq> sg_size b) gs"
      "gs \<noteq> [] \<longrightarrow> sg_size (last gs) \<noteq> sv_size (schedule ! cur)"
      using I by blast+
    define g where "g = \<lparr>sg_size = sv_size (schedule ! cur), sg_start = cur, sg_end = length schedule\<rparr>"
    have gs: "schedule_groups schedule = gs @ [g]"
      using False gl n by (simp add: schedule_groups_def g_def)
    have tg: "tiles schedule cur [g] (length schedule)"
      unfolding g_def using inv(1,3) by (rule tiles_single)
    have t: "tiles schedule 0 (gs @ [g]) (length schedule)"
      using inv(2) tg by (rule tiles_append)
    have s: "successively (\<lambda>a b. sg_size a \<noteq> sg_size b) (gs @ [g])"
      using inv(4,5) by (intro successively_snoc) (simp_all add: g_def)
    show ?thesis unfolding gs by (intro conjI t s) simp
  qed
qed


text \<open>
  Claim C4. After the traversal, \<^verbatim>\<open>jitc_eval\<close> holds the same scheduled variables,
  sorted by descending size and, among equal sizes, by ascending identifier. The groups
  are contiguous and cover the schedule from its first to its last position; every group
  is a non-empty run of variables of the group's size, and two neighbouring groups differ
  in size, so that every run is maximal. The schedule has fewer than \<open>2^32\<close> entries, as
  the cast of its length to 32 bits assumes.
\<close>

theorem jitc_eval_order_sorted_groups:
  assumes run: "jitc_eval_order traversed = Some (schedule, groups)"
      and len: "length traversed < 2 ^ 32"
  shows "mset schedule = mset traversed
       \<and> sorted_wrt (\<lambda>a b. sv_size a > sv_size b \<or> (sv_size a = sv_size b \<and> sv_index a \<le> sv_index b))
            schedule
       \<and> groups \<noteq> [] \<and> sg_start (hd groups) = 0 \<and> sg_end (last groups) = length schedule
       \<and> (\<forall>k. Suc k < length groups \<longrightarrow>
             sg_end (groups ! k) = sg_start (groups ! Suc k)
             \<and> sg_size (groups ! k) \<noteq> sg_size (groups ! Suc k))
       \<and> (\<forall>g\<in>set groups. sg_start g < sg_end g \<and> sg_end g \<le> length schedule
             \<and> (\<forall>i. sg_start g \<le> i \<and> i < sg_end g \<longrightarrow> sv_size (schedule ! i) = sg_size g))"
proof -
  from run have ne: "traversed \<noteq> []" and s: "schedule = std_sort schedule_less traversed"
    and g: "groups = schedule_groups schedule"
    by (auto simp: jitc_eval_order_def Let_def split: if_splits)
  have m: "mset schedule = mset traversed" unfolding s by (rule mset_std_sort)
  then have l: "length schedule = length traversed" by (rule mset_eq_length)
  with ne have ne': "schedule \<noteq> []" by auto
  have len': "length schedule < 2 ^ 32" using l len by simp
  have srt: "sorted_wrt schedule_le schedule" unfolding s by (rule sorted_std_sort)
  then have srt': "sorted_wrt (\<lambda>a b. sv_size a > sv_size b \<or> (sv_size a = sv_size b \<and> sv_index a \<le> sv_index b))
            schedule"
    by (simp add: schedule_le_def[abs_def])
  from schedule_groups_tiles[OF srt ne' len'] g
  have t: "tiles schedule 0 groups (length schedule)"
    and su: "successively (\<lambda>a b. sg_size a \<noteq> sg_size b) groups" and gne: "groups \<noteq> []"
    by simp_all
  from tiles_ends[OF t gne] have e: "sg_start (hd groups) = 0" "sg_end (last groups) = length schedule"
    by simp_all
  have adj: "\<forall>k. Suc k < length groups \<longrightarrow>
             sg_end (groups ! k) = sg_start (groups ! Suc k)
             \<and> sg_size (groups ! k) \<noteq> sg_size (groups ! Suc k)"
    using tiles_adjacent[OF t] successively_nth[OF su] by blast
  have mem: "\<forall>g\<in>set groups. sg_start g < sg_end g \<and> sg_end g \<le> length schedule
             \<and> (\<forall>i. sg_start g \<le> i \<and> i < sg_end g \<longrightarrow> sv_size (schedule ! i) = sg_size g)"
    using tiles_member[OF t] by blast
  show ?thesis by (intro conjI m srt' gne e adj mem)
qed


lemma jitc_eval_order_traversed0:
  "jitc_eval_order traversed0 =
     Some ([\<lparr>sv_size = 10, sv_index = 2\<rparr>, \<lparr>sv_size = 10, sv_index = 3\<rparr>,
            \<lparr>sv_size = 1, sv_index = 4\<rparr>, \<lparr>sv_size = 1, sv_index = 5\<rparr>],
           [\<lparr>sg_size = 10, sg_start = 0, sg_end = 2\<rparr>, \<lparr>sg_size = 1, sg_start = 2, sg_end = 4\<rparr>])"
  by (simp add: jitc_eval_order_def traversed0_def std_sort_def schedule_less_def
        schedule_groups_def group_loop.simps u32_def)

theorem jitc_eval_order_sorted_groups_witness:
  "length traversed0 < 2 ^ 32
   \<and> jitc_eval_order traversed0 =
     Some ([\<lparr>sv_size = 10, sv_index = 2\<rparr>, \<lparr>sv_size = 10, sv_index = 3\<rparr>,
            \<lparr>sv_size = 1, sv_index = 4\<rparr>, \<lparr>sv_size = 1, sv_index = 5\<rparr>],
           [\<lparr>sg_size = 10, sg_start = 0, sg_end = 2\<rparr>, \<lparr>sg_size = 1, sg_start = 2, sg_end = 4\<rparr>])
   \<and> mset [\<lparr>sv_size = 10, sv_index = 2\<rparr>, \<lparr>sv_size = 10, sv_index = 3\<rparr>,
            \<lparr>sv_size = 1, sv_index = 4\<rparr>, \<lparr>sv_size = 1, sv_index = 5\<rparr>] = mset traversed0
   \<and> sg_end (last [\<lparr>sg_size = 10, sg_start = 0, sg_end = 2\<rparr>,
                    \<lparr>sg_size = (1::32 word), sg_start = 2, sg_end = 4\<rparr>]) = 4"
proof -
  have len: "length traversed0 < 2 ^ 32" by (simp add: traversed0_def)
  from jitc_eval_order_sorted_groups[OF jitc_eval_order_traversed0 len] len
    jitc_eval_order_traversed0
  show ?thesis by simp
qed

subsection \<open>Register numbers within a group\<close>

lemma range32_upt:
  "start \<le> end \<Longrightarrow> end < 2 ^ 32 \<Longrightarrow> range32 start end = [start..<end]"
proof -
  assume a: "start \<le> end" "end < 2 ^ 32"
  have s: "sub32 end start = end - start"
  proof -
    have m: "start mod 2 ^ 32 = start" using a by simp
    have "end + ((2::nat) ^ 32 - start) = (end - start) + 2 ^ 32" using a by simp
    then have "(end + ((2::nat) ^ 32 - start)) mod 2 ^ 32 = (end - start) mod 2 ^ 32"
      by (simp only: mod_add_self2)
    also have "\<dots> = end - start" using a by simp
    finally show ?thesis unfolding sub32_def m .
  qed
  have "map (\<lambda>k. add32 start k) [0..<end - start] = map (\<lambda>k. start + k) [0..<end - start]"
    using a by (intro map_cong) (auto simp: add32_def)
  also have "\<dots> = [start..<end]"
    using a by (intro nth_equalityI) simp_all
  finally show ?thesis by (simp add: range32_def s)
qed

lemma assemble_var_ok:
  assumes "assemble_var oe backend gs index st = (None, st')"
  shows "n_regs st' = n_regs st + 1
       \<and> (\<exists>v. variables st' index = Some v \<and> reg_index v = n_regs st)
       \<and> (\<forall>j. j \<noteq> index \<longrightarrow> variables st' j = variables st j)"
  using assms
  by (auto simp: assemble_var_def Let_def jitc_malloc_def split: option.splits if_splits)

lemma assemble_loop_ok:
  assumes "assemble_loop oe backend gs idxs st = (None, st')" and "distinct idxs"
  shows "n_regs st' = n_regs st + word_of_nat (length idxs)
       \<and> (\<forall>k<length idxs. \<exists>v. variables st' (idxs ! k) = Some v
              \<and> reg_index v = n_regs st + word_of_nat k)
       \<and> (\<forall>j. j \<notin> set idxs \<longrightarrow> variables st' j = variables st j)"
  using assms
proof (induction idxs arbitrary: st)
  case Nil
  then show ?case by simp
next
  case (Cons index rest)
  obtain r st1 where a: "assemble_var oe backend gs index st = (r, st1)"
    by (cases "assemble_var oe backend gs index st")
  with Cons.prems(1) have r: "r = None" and l: "assemble_loop oe backend gs rest st1 = (None, st')"
    by (auto split: option.splits)
  from assemble_var_ok[OF a[unfolded r]] obtain v where
    v: "n_regs st1 = n_regs st + 1" "variables st1 index = Some v" "reg_index v = n_regs st"
       "\<forall>j. j \<noteq> index \<longrightarrow> variables st1 j = variables st j" by blast
  from Cons.prems(2) have d: "distinct rest" "index \<notin> set rest" by auto
  from Cons.IH[OF l d(1)] have IH:
    "n_regs st' = n_regs st1 + word_of_nat (length rest)"
    "\<forall>k<length rest. \<exists>v. variables st' (rest ! k) = Some v \<and> reg_index v = n_regs st1 + word_of_nat k"
    "\<forall>j. j \<notin> set rest \<longrightarrow> variables st' j = variables st1 j" by blast+
  have 1: "n_regs st' = n_regs st + word_of_nat (length (index # rest))"
    using IH(1) v(1) by simp
  have 2: "\<forall>k<length (index # rest). \<exists>v. variables st' ((index # rest) ! k) = Some v
              \<and> reg_index v = n_regs st + word_of_nat k"
  proof (intro allI impI)
    fix k assume k: "k < length (index # rest)"
    show "\<exists>v. variables st' ((index # rest) ! k) = Some v \<and> reg_index v = n_regs st + word_of_nat k"
    proof (cases k)
      case 0
      with IH(3) d(2) v show ?thesis by simp
    next
      case (Suc m)
      with k have "m < length rest" by simp
      with IH(2) obtain w where "variables st' (rest ! m) = Some w" "reg_index w = n_regs st1 + word_of_nat m"
        by blast
      with Suc v(1) show ?thesis by simp
    qed
  qed
  have 3: "\<forall>j. j \<notin> set (index # rest) \<longrightarrow> variables st' j = variables st j"
    using IH(3) v(4) by simp
  from 1 2 3 show ?case by blast
qed

text \<open>
  Claim C7. When \<^verbatim>\<open>jitc_assemble\<close> gets through a group without a fault, the variable
  at position \<open>k\<close> of the group has the register number \<open>base + k\<close>, where \<open>base\<close> is 4
  on the CUDA backend and 1 on the LLVM backend, whatever its classification; the number
  of registers used is \<open>base\<close> plus the length of the group. Register numbers are 32-bit
  values. The variables of a group are distinct: the traversal schedules a pair of size
  and identifier at most once, and a group has one size.
\<close>

theorem jitc_assemble_reg_index:
  assumes run: "jitc_assemble optix_enabled flag_ForceOptiX arg_limit backend schedule grp st = (None, st')"
      and le: "sg_start grp \<le> sg_end grp" and lt: "sg_end grp < 2 ^ 32"
      and dist: "distinct (map (\<lambda>i. sv_index (schedule ! i)) [sg_start grp..<sg_end grp])"
  shows "(\<forall>k < sg_end grp - sg_start grp.
            \<exists>v. variables st' (sv_index (schedule ! (sg_start grp + k))) = Some v
               \<and> reg_index v = word_of_nat ((if backend = CUDA then 4 else 1) + k))
       \<and> n_regs_used st' =
           word_of_nat ((if backend = CUDA then 4 else 1) + (sg_end grp - sg_start grp))"
proof -
  let ?idxs = "map (\<lambda>i. sv_index (schedule ! i)) [sg_start grp..<sg_end grp]"
  let ?st0 = "st\<lparr>kernel_params := (if backend = CUDA then [unat (sg_size grp)] else [0, 0, 0]),
                   uses_optix := (if optix_enabled then backend = CUDA \<and> flag_ForceOptiX
                                  else uses_optix st),
                   n_params_in := 0, n_params_out := 0, n_side_effects := 0,
                   n_regs := (if backend = CUDA then 4 else 1)\<rparr>"
  have r: "range32 (sg_start grp) (sg_end grp) = [sg_start grp..<sg_end grp]"
    using le lt by (rule range32_upt)
  obtain res st1 where l: "assemble_loop optix_enabled backend (sg_size grp) ?idxs ?st0 = (res, st1)"
    by (cases "assemble_loop optix_enabled backend (sg_size grp) ?idxs ?st0")
  from run l r have res: "res = None"
    by (auto simp: jitc_assemble_def Let_def split: option.splits)
  from run l r res have same: "variables st' = variables st1" "n_regs_used st' = n_regs st1"
    by (auto simp: jitc_assemble_def Let_def jitc_malloc_def split: if_splits)
  from assemble_loop_ok[OF l[unfolded res] dist]
  have n: "n_regs st1 = n_regs ?st0 + word_of_nat (length ?idxs)"
    and v: "\<forall>k<length ?idxs. \<exists>v. variables st1 (?idxs ! k) = Some v
              \<and> reg_index v = n_regs ?st0 + word_of_nat k"
    by blast+
  have base: "n_regs ?st0 = word_of_nat (if backend = CUDA then 4 else 1)" by simp
  have A: "\<forall>k < sg_end grp - sg_start grp.
            \<exists>v. variables st' (sv_index (schedule ! (sg_start grp + k))) = Some v
               \<and> reg_index v = word_of_nat ((if backend = CUDA then 4 else 1) + k)"
  proof (intro allI impI)
    fix k assume k: "k < sg_end grp - sg_start grp"
    then have "k < length ?idxs" by simp
    with v obtain w where w: "variables st1 (?idxs ! k) = Some w"
      "reg_index w = n_regs ?st0 + word_of_nat k" by blast
    have "?idxs ! k = sv_index (schedule ! (sg_start grp + k))" using k by simp
    with w same(1) base
    show "\<exists>v. variables st' (sv_index (schedule ! (sg_start grp + k))) = Some v
               \<and> reg_index v = word_of_nat ((if backend = CUDA then 4 else 1) + k)"
      by (intro exI[of _ w]) simp
  qed
  have B: "n_regs_used st' =
           word_of_nat ((if backend = CUDA then 4 else 1) + (sg_end grp - sg_start grp))"
    using same(2) n base by simp
  from A B show ?thesis by blast
qed

lemma jitc_assemble_asm0:
  "fst (jitc_assemble False False 512 LLVM schedule0 group0 asm0) = None"
  by (simp add: jitc_assemble_def group0_def schedule0_def asm0_def var0_def range32_def
        sub32_def add32_def assemble_var_def jitc_malloc_def Let_def upt_rec)

theorem jitc_assemble_reg_index_witness:
  "fst (jitc_assemble False False 512 LLVM schedule0 group0 asm0) = None
   \<and> sg_start group0 \<le> sg_end group0 \<and> sg_end group0 < 2 ^ 32
   \<and> distinct (map (\<lambda>i. sv_index (schedule0 ! i)) [sg_start group0..<sg_end group0])
   \<and> (\<exists>v. variables (snd (jitc_assemble False False 512 LLVM schedule0 group0 asm0)) 7 = Some v
           \<and> reg_index v = 3)
   \<and> n_regs_used (snd (jitc_assemble False False 512 LLVM schedule0 group0 asm0)) = 4"
proof -
  have run: "jitc_assemble False False 512 LLVM schedule0 group0 asm0 =
               (None, snd (jitc_assemble False False 512 LLVM schedule0 group0 asm0))"
    using jitc_assemble_asm0 by (simp add: prod_eq_iff)
  have le: "sg_start group0 \<le> sg_end group0" and lt: "sg_end group0 < 2 ^ 32"
    by (simp_all add: group0_def)
  have dist: "distinct (map (\<lambda>i. sv_index (schedule0 ! i)) [sg_start group0..<sg_end group0])"
    by (simp add: group0_def schedule0_def upt_rec)
  note t = jitc_assemble_reg_index[OF run le lt dist]
  have "(2::nat) < sg_end group0 - sg_start group0" by (simp add: group0_def)
  with t have "\<exists>v. variables (snd (jitc_assemble False False 512 LLVM schedule0 group0 asm0))
                    (sv_index (schedule0 ! (sg_start group0 + 2))) = Some v
               \<and> reg_index v = word_of_nat ((if LLVM = CUDA then 4 else 1) + 2)"
    by blast
  then have a: "\<exists>v. variables (snd (jitc_assemble False False 512 LLVM schedule0 group0 asm0)) 7 = Some v
           \<and> reg_index v = 3"
    by (simp add: group0_def schedule0_def)
  from t have b: "n_regs_used (snd (jitc_assemble False False 512 LLVM schedule0 group0 asm0)) = 4"
    by (simp add: group0_def)
  from jitc_assemble_asm0 le lt dist a b show ?thesis by blast
qed

subsection \<open>Prefix sum: the blockwise two-phase scan\<close>

lemma sum_reduce_2_T_scan_body:
  "sum_reduce_2_T (+) 0 start end inp out index scratch ex mem =
     snd (fold (scan_body ex inp out) (range32 start end)
            (case scratch of Some sc \<Rightarrow> sc ! index | None \<Rightarrow> 0, mem))"
  by (simp add: sum_reduce_2_T_def scan_body_def[abs_def] case_prod_beta')

lemma sum_list_take_add:
  fixes a :: "'v::comm_monoid_add list"
  shows "sum_list (take (s + j) a) = sum_list (take s a) + sum_list (take j (drop s a))"
  by (simp add: take_add)

lemma scan_fold:
  fixes a :: "'v::comm_monoid_add list"
  assumes ovl: "out = inp \<or> out + n \<le> inp \<or> inp + n \<le> out"
      and len: "inp + n \<le> length m" "out + n \<le> length m" "length a = n"
      and inputs: "\<forall>i. start \<le> i \<and> i < n \<longrightarrow> m ! (inp + i) = a ! i"
  shows "start + k \<le> n \<Longrightarrow>
     (case fold (scan_body ex inp out) [start..<start + k] (acc0, m) of
        (acc, m') \<Rightarrow>
          acc = acc0 + sum_list (take k (drop start a))
          \<and> length m' = length m
          \<and> (\<forall>i. start \<le> i \<and> i < start + k \<longrightarrow>
                m' ! (out + i) = acc0 + sum_list (take (if ex then i - start else Suc (i - start)) (drop start a)))
          \<and> (\<forall>j<length m. \<not> (out + start \<le> j \<and> j < out + start + k) \<longrightarrow> m' ! j = m ! j))"
proof (induction k)
  case 0
  then show ?case by auto
next
  case (Suc k)
  then have kn: "start + k < n" "start + k \<le> n" by simp_all
  obtain acc m1 where f: "fold (scan_body ex inp out) [start..<start + k] (acc0, m) = (acc, m1)"
    by (cases "fold (scan_body ex inp out) [start..<start + k] (acc0, m)")
  from Suc.IH[OF kn(2)] f have IH:
    "acc = acc0 + sum_list (take k (drop start a))"
    "length m1 = length m"
    "\<forall>i. start \<le> i \<and> i < start + k \<longrightarrow>
        m1 ! (out + i) = acc0 + sum_list (take (if ex then i - start else Suc (i - start)) (drop start a))"
    "\<forall>j<length m. \<not> (out + start \<le> j \<and> j < out + start + k) \<longrightarrow> m1 ! j = m ! j"
    by simp_all
  let ?e = "start + k"
  have notin: "\<not> (out + start \<le> inp + ?e \<and> inp + ?e < out + start + k)"
    using ovl kn by auto
  have "inp + ?e < length m" using kn len by simp
  with IH(4) notin have "m1 ! (inp + ?e) = m ! (inp + ?e)" by blast
  also have "\<dots> = a ! ?e" using inputs kn by simp
  finally have v: "m1 ! (inp + ?e) = a ! ?e" .
  have dk: "drop start a ! k = a ! ?e" using kn len by simp
  have tk: "take (Suc k) (drop start a) = take k (drop start a) @ [a ! ?e]"
    using kn len dk by (simp add: take_Suc_conv_app_nth)
  let ?new = "if ex then acc else acc + a ! ?e"
  have step: "fold (scan_body ex inp out) [start..<start + Suc k] (acc0, m) =
              (acc + a ! ?e, m1[out + ?e := ?new])"
    using f v by (simp add: scan_body_def Let_def)
  have oe: "out + ?e < length m1" using kn len IH(2) by simp
  have A: "acc + a ! ?e = acc0 + sum_list (take (Suc k) (drop start a))"
    using IH(1) tk by (simp add: add.assoc)
  have B: "length (m1[out + ?e := ?new]) = length m" using IH(2) by simp
  have C: "\<forall>i. start \<le> i \<and> i < start + Suc k \<longrightarrow>
        (m1[out + ?e := ?new]) ! (out + i) =
          acc0 + sum_list (take (if ex then i - start else Suc (i - start)) (drop start a))"
  proof (intro allI impI)
    fix i assume i: "start \<le> i \<and> i < start + Suc k"
    show "(m1[out + ?e := ?new]) ! (out + i) =
          acc0 + sum_list (take (if ex then i - start else Suc (i - start)) (drop start a))"
    proof (cases "i = ?e")
      case True
      then have "(m1[out + ?e := ?new]) ! (out + i) = ?new" using oe by simp
      also have "\<dots> = acc0 + sum_list (take (if ex then i - start else Suc (i - start)) (drop start a))"
        using True IH(1) A by simp
      finally show ?thesis .
    next
      case False
      with i have "start \<le> i \<and> i < start + k" by arith
      with IH(3) False show ?thesis by simp
    qed
  qed
  have D: "\<forall>j<length m. \<not> (out + start \<le> j \<and> j < out + start + Suc k) \<longrightarrow>
             (m1[out + ?e := ?new]) ! j = m ! j"
  proof (intro allI impI)
    fix j assume j: "j < length m" "\<not> (out + start \<le> j \<and> j < out + start + Suc k)"
    then have "j \<noteq> out + ?e" "\<not> (out + start \<le> j \<and> j < out + start + k)" by arith+
    with IH(4) j(1) show "(m1[out + ?e := ?new]) ! j = m ! j" by simp
  qed
  show ?case unfolding step using A B C D by simp
qed

lemma add32_id: "a + b < 2 ^ 32 \<Longrightarrow> add32 a b = a + b"
  by (simp add: add32_def)

lemma mul32_id: "a * b < 2 ^ 32 \<Longrightarrow> mul32 a b = a * b"
  by (simp add: mul32_def)

lemma sub32_id: "b \<le> a \<Longrightarrow> a < 2 ^ 32 \<Longrightarrow> sub32 a b = a - b"
proof -
  assume a: "b \<le> a" "a < 2 ^ 32"
  have m: "b mod 2 ^ 32 = b" using a by simp
  have "a + ((2::nat) ^ 32 - b) = (a - b) + 2 ^ 32" using a by simp
  then have "(a + ((2::nat) ^ 32 - b)) mod 2 ^ 32 = (a - b) mod 2 ^ 32"
    by (simp only: mod_add_self2)
  also have "\<dots> = a - b" using a by simp
  finally show ?thesis unfolding sub32_def m .
qed

lemma blocks_mult_less:
  fixes bs b sz :: nat
  assumes "1 \<le> bs" "b < (sz + bs - 1) div bs"
  shows "b * bs < sz"
proof -
  have "Suc b \<le> (sz + bs - 1) div bs" using assms(2) by simp
  then have "Suc b * bs \<le> (sz + bs - 1) div bs * bs" by (rule mult_le_mono1)
  also have "\<dots> \<le> sz + bs - 1" by simp
  finally have "b * bs + bs \<le> sz + bs - 1" by simp
  with assms(1) show ?thesis by arith
qed

lemma blocks_mult_ge:
  fixes bs sz :: nat
  assumes "1 \<le> bs"
  shows "sz \<le> (sz + bs - 1) div bs * bs"
proof -
  have "sz + bs - 1 = (sz + bs - 1) div bs * bs + (sz + bs - 1) mod bs" by simp
  moreover have "(sz + bs - 1) mod bs < bs" using assms by simp
  ultimately show ?thesis using assms by arith
qed

lemma block_cover_pool:
  assumes "0 < sz" "1 \<le> bs" "sz + bs \<le> 2 ^ 32"
  shows "sub32 (add32 sz bs) 1 div bs = (sz + bs - 1) div bs"
    and "block_cover sz bs ((sz + bs - 1) div bs)"
proof -
  have "sz + bs < 2 ^ 32 \<or> sz + bs = 2 ^ 32" using assms(3) by arith
  then show "sub32 (add32 sz bs) 1 div bs = (sz + bs - 1) div bs"
  proof
    assume "sz + bs < 2 ^ 32"
    then show ?thesis using assms by (simp add: add32_id sub32_id)
  next
    assume e: "sz + bs = 2 ^ 32"
    then have "add32 sz bs = 0" by (simp add: add32_def)
    moreover have "sub32 0 1 = 2 ^ 32 - 1" by (simp add: sub32_def)
    ultimately show ?thesis using e by simp
  qed
  show "block_cover sz bs ((sz + bs - 1) div bs)"
    unfolding block_cover_def
  proof (intro conjI allI impI)
    show "1 \<le> bs" by fact
    show "sz < 2 ^ 32" using assms by arith
    show "sz \<le> (sz + bs - 1) div bs * bs" using assms(2) by (rule blocks_mult_ge)
  next
    fix b assume b: "b < (sz + bs - 1) div bs"
    from blocks_mult_less[OF assms(2) b] show "b * bs < sz" .
    then show "b * bs + bs < 2 ^ 32" using assms(3) by arith
  qed
qed

lemma block_cover_single:
  assumes "0 < sz" "sz < 2 ^ 32"
  shows "block_cover sz sz 1"
  using assms by (simp add: block_cover_def)

lemma block_cover_facts:
  assumes "block_cover sz bs blocks" "b < blocks"
  shows "mul32 b bs = b * bs"
    and "add32 (b * bs) bs = b * bs + bs"
    and "b * bs < sz"
    and "min (b * bs + bs) sz \<le> sz"
    and "b * bs \<le> min (b * bs + bs) sz"
    and "range32 (b * bs) (min (b * bs + bs) sz) = [b * bs..<min (b * bs + bs) sz]"
    and "Suc b < blocks \<Longrightarrow> min (b * bs + bs) sz = Suc b * bs"
    and "Suc b = blocks \<Longrightarrow> min (b * bs + bs) sz = sz"
proof -
  from assms have f: "1 \<le> bs" "sz < 2 ^ 32" "sz \<le> blocks * bs" "b * bs < sz" "b * bs + bs < 2 ^ 32"
    by (auto simp: block_cover_def)
  show "mul32 b bs = b * bs" using f by (intro mul32_id) arith
  show "add32 (b * bs) bs = b * bs + bs" using f by (intro add32_id)
  show "b * bs < sz" by fact
  show "min (b * bs + bs) sz \<le> sz" by simp
  show "b * bs \<le> min (b * bs + bs) sz" using f by simp
  show "range32 (b * bs) (min (b * bs + bs) sz) = [b * bs..<min (b * bs + bs) sz]"
    using f by (intro range32_upt) simp_all
  show "min (b * bs + bs) sz = Suc b * bs" if "Suc b < blocks"
  proof -
    from assms(1) that have "Suc b * bs < sz" by (auto simp: block_cover_def)
    then show ?thesis by simp
  qed
  show "min (b * bs + bs) sz = sz" if "Suc b = blocks"
    using f(3) that by auto
qed

lemma run_units_snoc:
  "run_units f (xs @ [x]) s = (case run_units f xs s of Inl e \<Rightarrow> Inl e | Inr s1 \<Rightarrow> f x s1)"
  by (induction xs arbitrary: s) (auto split: sum.splits)

lemma sum_reduce_2_int:
  "vt = UInt32 \<or> vt = UInt64 \<Longrightarrow>
     sum_reduce_2 F vt start end inp out index scratch ex mem =
       Inr (snd (fold (scan_body ex inp out) (range32 start end)
              (case scratch of Some sc \<Rightarrow> sc ! index | None \<Rightarrow> 0, mem)))"
  by (auto simp: sum_reduce_2_T_scan_body)

lemma phase2_inv:
  fixes a :: "'a::len word list"
  assumes cover: "block_cover sz bs blocks"
      and ovl: "out = inp \<or> out + sz \<le> inp \<or> inp + sz \<le> out"
      and lens: "inp + sz \<le> length mem" "out + sz \<le> length mem" "length a = sz"
      and inputs: "\<forall>i < sz. mem ! (inp + i) = a ! i"
      and vt: "vt = UInt32 \<or> vt = UInt64"
      and acc: "\<forall>b<blocks. (case scratch of Some sc \<Rightarrow> sc ! b | None \<Rightarrow> 0) = sum_list (take (b * bs) a)"
  shows "k \<le> blocks \<Longrightarrow>
     \<exists>m'. run_units (\<lambda>index. sum_reduce_2 F vt (mul32 index bs)
                                (min (add32 (mul32 index bs) bs) sz) inp out index scratch ex)
              [0..<k] mem = Inr m'
         \<and> length m' = length mem
         \<and> (\<forall>i < min (k * bs) sz. m' ! (out + i) = sum_list (take (if ex then i else Suc i) a))
         \<and> (\<forall>j<length mem. \<not> (out \<le> j \<and> j < out + min (k * bs) sz) \<longrightarrow> m' ! j = mem ! j)"
proof (induction k)
  case 0
  then show ?case by simp
next
  case (Suc k)
  let ?f = "\<lambda>index. sum_reduce_2 F vt (mul32 index bs)
                                (min (add32 (mul32 index bs) bs) sz) inp out index scratch ex"
  from Suc.prems have kb: "k < blocks" "k \<le> blocks" by simp_all
  from Suc.IH[OF kb(2)] obtain mk where mk:
    "run_units ?f [0..<k] mem = Inr mk" "length mk = length mem"
    "\<forall>i < min (k * bs) sz. mk ! (out + i) = sum_list (take (if ex then i else Suc i) a)"
    "\<forall>j<length mem. \<not> (out \<le> j \<and> j < out + min (k * bs) sz) \<longrightarrow> mk ! j = mem ! j"
    by blast
  note bf = block_cover_facts[OF cover kb(1)]
  let ?s = "k * bs" and ?e = "min (k * bs + bs) sz"
  have ms: "min (k * bs) sz = ?s" using bf(3) by simp
  have se: "?s + (?e - ?s) = ?e" using bf(5) by simp
  have me: "min (Suc k * bs) sz = ?e" by (simp add: add.commute)
  have acc0: "(case scratch of Some sc \<Rightarrow> sc ! k | None \<Rightarrow> 0) = sum_list (take ?s a)"
    using acc kb(1) by blast
  have inputs_k: "\<forall>i. ?s \<le> i \<and> i < sz \<longrightarrow> mk ! (inp + i) = a ! i"
  proof (intro allI impI)
    fix i assume i: "?s \<le> i \<and> i < sz"
    then have "inp + i < length mem" using lens by simp
    moreover have "\<not> (out \<le> inp + i \<and> inp + i < out + min (k * bs) sz)"
      unfolding ms using ovl i by auto
    ultimately have "mk ! (inp + i) = mem ! (inp + i)" using mk(4) by blast
    then show "mk ! (inp + i) = a ! i" using inputs i by simp
  qed
  have l1: "inp + sz \<le> length mk" "out + sz \<le> length mk" using lens mk(2) by simp_all
  have en: "?s + (?e - ?s) \<le> sz" unfolding se by simp
  obtain accf mf where fo: "fold (scan_body ex inp out) [?s..<?s + (?e - ?s)] (sum_list (take ?s a), mk) = (accf, mf)"
    by (cases "fold (scan_body ex inp out) [?s..<?s + (?e - ?s)] (sum_list (take ?s a), mk)")
  from scan_fold[OF ovl l1 lens(3) inputs_k en, where ex = ex and ?acc0.0 = "sum_list (take ?s a)"] fo
  have R: "length mf = length mk"
    "\<forall>i. ?s \<le> i \<and> i < ?s + (?e - ?s) \<longrightarrow>
        mf ! (out + i) = sum_list (take ?s a)
           + sum_list (take (if ex then i - ?s else Suc (i - ?s)) (drop ?s a))"
    "\<forall>j<length mk. \<not> (out + ?s \<le> j \<and> j < out + ?s + (?e - ?s)) \<longrightarrow> mf ! j = mk ! j"
    by simp_all
  have step: "?f k mk = Inr mf"
    using fo by (simp add: sum_reduce_2_int[OF vt] bf(1,2,6) acc0 se)
  have run: "run_units ?f [0..<Suc k] mem = Inr mf"
    using mk(1) step by (simp add: run_units_snoc)
  have A: "length mf = length mem" using R(1) mk(2) by simp
  have B: "\<forall>i < min (Suc k * bs) sz. mf ! (out + i) = sum_list (take (if ex then i else Suc i) a)"
    unfolding me
  proof (intro allI impI)
    fix i assume i: "i < ?e"
    show "mf ! (out + i) = sum_list (take (if ex then i else Suc i) a)"
    proof (cases "i < ?s")
      case True
      have "out + i < length mk" using i l1 by simp
      moreover have "\<not> (out + ?s \<le> out + i \<and> out + i < out + ?s + (?e - ?s))" using True by simp
      ultimately have "mf ! (out + i) = mk ! (out + i)" using R(3) by blast
      also have "\<dots> = sum_list (take (if ex then i else Suc i) a)"
        using mk(3) True ms by simp
      finally show ?thesis .
    next
      case False
      then have r: "?s \<le> i \<and> i < ?s + (?e - ?s)" using i se by simp
      have "mf ! (out + i) = sum_list (take ?s a)
           + sum_list (take (if ex then i - ?s else Suc (i - ?s)) (drop ?s a))"
        using R(2) r by blast
      also have "\<dots> = sum_list (take (?s + (if ex then i - ?s else Suc (i - ?s))) a)"
        by (rule sum_list_take_add[symmetric])
      also have "?s + (if ex then i - ?s else Suc (i - ?s)) = (if ex then i else Suc i)"
        using False by simp
      finally show ?thesis .
    qed
  qed
  have C: "\<forall>j<length mem. \<not> (out \<le> j \<and> j < out + min (Suc k * bs) sz) \<longrightarrow> mf ! j = mem ! j"
    unfolding me
  proof (intro allI impI)
    fix j assume j: "j < length mem" "\<not> (out \<le> j \<and> j < out + ?e)"
    have "\<not> (out + ?s \<le> j \<and> j < out + ?s + (?e - ?s))" using j(2) se by auto
    then have "mf ! j = mk ! j" using R(3) j(1) mk(2) by simp
    moreover have "\<not> (out \<le> j \<and> j < out + min (k * bs) sz)" unfolding ms using j(2) bf(5) by auto
    ultimately show "mf ! j = mem ! j" using mk(4) j(1) by simp
  qed
  from run A B C show ?case by blast
qed

lemma sum_fold:
  fixes a :: "'v::comm_monoid_add list"
  assumes "\<forall>i < length a. mem ! (inp + i) = a ! i"
  shows "s + k \<le> length a \<Longrightarrow>
     fold (\<lambda>i accum. accum + mem ! (inp + i)) [s..<s + k] acc0 = acc0 + sum_list (take k (drop s a))"
proof (induction k)
  case 0
  then show ?case by simp
next
  case (Suc k)
  then have kn: "s + k < length a" by simp
  have "drop s a ! k = a ! (s + k)" using kn by simp
  then have tk: "take (Suc k) (drop s a) = take k (drop s a) @ [a ! (s + k)]"
    using kn by (simp add: take_Suc_conv_app_nth)
  have "mem ! (inp + (s + k)) = a ! (s + k)" using assms kn by blast
  then show ?case using Suc.IH kn tk by (simp add: add.assoc)
qed

lemma sum_reduce_1_int:
  "vt = UInt32 \<or> vt = UInt64 \<Longrightarrow>
     sum_reduce_1 F vt start end mem inp index scratch =
       Inr (scratch[index := fold (\<lambda>i accum. accum + mem ! (inp + i)) (range32 start end) 0])"
  by (auto simp: sum_reduce_1_T_def)

lemma phase1_inv:
  fixes a :: "'a::len word list"
  assumes cover: "block_cover sz bs blocks"
      and len: "length a = sz"
      and inputs: "\<forall>i < sz. mem ! (inp + i) = a ! i"
      and vt: "vt = UInt32 \<or> vt = UInt64"
  shows "k \<le> blocks \<Longrightarrow>
     run_units (\<lambda>index. sum_reduce_1 F vt (mul32 index bs)
                          (min (add32 (mul32 index bs) bs) sz) mem inp index)
       [0..<k] (replicate blocks 0) =
     Inr (map (block_sum a bs) [0..<k] @ replicate (blocks - k) 0)"
proof (induction k)
  case 0
  then show ?case by simp
next
  case (Suc k)
  then have kb: "k < blocks" "k \<le> blocks" by simp_all
  note bf = block_cover_facts[OF cover kb(1)]
  let ?s = "k * bs" and ?e = "min (k * bs + bs) sz"
  have se: "?s + (?e - ?s) = ?e" using bf(5) by simp
  have "?s + (?e - ?s) \<le> length a" unfolding se len by simp
  from sum_fold[OF inputs[folded len] this, of 0]
  have f: "fold (\<lambda>i accum. accum + mem ! (inp + i)) [?s..<?e] 0 = block_sum a bs k"
    by (simp add: se block_sum_def len)
  have r: "replicate (blocks - k) (0::'a word) = 0 # replicate (blocks - Suc k) 0"
    using kb(1) by (simp add: Suc_diff_Suc flip: replicate_Suc)
  have u: "(map (block_sum a bs) [0..<k] @ replicate (blocks - k) 0)[k := block_sum a bs k] =
           map (block_sum a bs) [0..<Suc k] @ replicate (blocks - Suc k) 0"
    unfolding r using list_update_length[of "map (block_sum a bs) [0..<k]" 0 _ "block_sum a bs k"]
    by simp
  let ?f = "\<lambda>index. sum_reduce_1 F vt (mul32 index bs)
                          (min (add32 (mul32 index bs) bs) sz) mem inp index"
  let ?sk = "map (block_sum a bs) [0..<k] @ replicate (blocks - k) 0"
  have IH: "run_units ?f [0..<k] (replicate blocks 0) = Inr ?sk" using Suc.IH[OF kb(2)] .
  have step: "?f k ?sk = Inr (?sk[k := block_sum a bs k])"
    by (simp add: sum_reduce_1_int[OF vt] bf(1,2,6) f)
  have "run_units ?f [0..<Suc k] (replicate blocks 0) = run_units ?f ([0..<k] @ [k]) (replicate blocks 0)"
    by simp
  also have "\<dots> = ?f k ?sk" unfolding run_units_snoc IH by simp
  also have "\<dots> = Inr (map (block_sum a bs) [0..<Suc k] @ replicate (blocks - Suc k) 0)"
    unfolding step u ..
  finally show ?case .
qed

lemma block_sums_prefix:
  fixes a :: "'v::comm_monoid_add list"
  assumes cover: "block_cover sz bs blocks" and len: "length a = sz"
  shows "b < blocks \<Longrightarrow> sum_list (map (block_sum a bs) [0..<b]) = sum_list (take (b * bs) a)"
proof (induction b)
  case 0
  then show ?case by simp
next
  case (Suc b)
  then have b: "b < blocks" "Suc b < blocks" by simp_all
  from block_cover_facts(7)[OF cover b(1) b(2)]
  have "block_sum a bs b = sum_list (take bs (drop (b * bs) a))"
    by (simp add: block_sum_def len)
  moreover have "sum_list (take (b * bs + bs) a) =
                 sum_list (take (b * bs) a) + sum_list (take bs (drop (b * bs) a))"
    by (rule sum_list_take_add)
  ultimately show ?case using Suc.IH[OF b(1)] by (simp add: add.commute)
qed

lemma blocks_less:
  fixes bs sz :: nat
  assumes "2 \<le> bs" "1 < (sz + bs - 1) div bs"
  shows "(sz + bs - 1) div bs < sz"
proof -
  let ?q = "(sz + bs - 1) div bs"
  have "?q - 1 < ?q" using assms(2) by simp
  then have "(?q - 1) * bs < sz" using assms(1) by (intro blocks_mult_less) simp_all
  moreover have "(?q - 1) * 2 \<le> (?q - 1) * bs" using assms(1) by simp
  ultimately have "(?q - 1) * 2 < sz" by (rule order_le_less_trans[rotated])
  with assms(2) show ?thesis by arith
qed

lemma blocks_pos:
  fixes bs sz :: nat
  assumes "1 \<le> bs" "0 < sz"
  shows "1 \<le> (sz + bs - 1) div bs"
proof -
  have "bs \<le> sz + bs - 1" using assms by arith
  then have "bs div bs \<le> (sz + bs - 1) div bs" by (rule div_le_mono)
  then show ?thesis using assms by simp
qed

lemma jitc_prefix_sum_scan:
  fixes mem :: "'a::len word list"
  assumes vt: "vt0 = Int32 \<or> vt0 = UInt32 \<or> vt0 = UInt64"
      and pool: "pool_size > 1 \<longrightarrow> 2 \<le> bs \<and> sz + bs \<le> 2 ^ 32"
      and szlt: "sz < 2 ^ 32"
      and lens: "inp + sz \<le> length mem" "out + sz \<le> length mem"
      and ovl: "out = inp \<or> out + sz \<le> inp \<or> inp + sz \<le> out"
  shows "\<exists>m'. jitc_prefix_sum F pool_size bs vt0 ex inp sz out mem = Some (Inr m')
             \<and> length m' = length mem
             \<and> (\<forall>i < sz. m' ! (out + i) =
                   sum_list (take (if ex then i else Suc i) (take sz (drop inp mem))))
             \<and> (\<forall>j<length mem. \<not> (out \<le> j \<and> j < out + sz) \<longrightarrow> m' ! j = mem ! j)"
  using assms
proof (induction sz arbitrary: vt0 ex inp out mem rule: less_induct)
  case (less sz)
  note vt = less.prems(1) and pool = less.prems(2) and szlt = less.prems(3)
    and lens = less.prems(4,5) and ovl = less.prems(6)
  define a where "a = take sz (drop inp mem)"
  have la: "length a = sz" using lens by (simp add: a_def)
  have inputs: "\<forall>i < sz. mem ! (inp + i) = a ! i" using lens by (simp add: a_def)
  define vt where "vt = (if vt0 = Int32 then UInt32 else vt0)"
  have vt': "vt = UInt32 \<or> vt = UInt64" using less.prems(1) by (auto simp: vt_def)
  show ?case
  proof (cases "sz = 0")
    case True
    have "jitc_prefix_sum F pool_size bs vt0 ex inp sz out mem = Some (Inr mem)"
      using True by (subst jitc_prefix_sum.simps) simp
    then show ?thesis using True by simp
  next
    case False
    then have pos: "0 < sz" by simp
    define block_size where "block_size = (if pool_size > 1 then bs else sz)"
    define blocks where "blocks = (if pool_size > 1 then sub32 (add32 sz block_size) 1 div block_size else 1)"
    have nz: "\<not> (pool_size > 1 \<and> bs = 0)" using pool by auto
    have cover: "block_cover sz block_size blocks" and b1: "1 \<le> blocks"
      and rec: "1 < blocks \<longrightarrow> blocks < sz \<and> blocks + bs \<le> 2 ^ 32 \<and> 1 < pool_size \<and> block_size = bs"
    proof -
      show "block_cover sz block_size blocks"
      proof (cases "pool_size > 1")
        case True
        with pool have p: "1 \<le> bs" "sz + bs \<le> 2 ^ 32" by auto
        from block_cover_pool[OF pos p] True show ?thesis by (simp add: blocks_def block_size_def)
      next
        case False
        with block_cover_single[OF pos szlt] show ?thesis by (simp add: blocks_def block_size_def)
      qed
      show "1 \<le> blocks"
      proof (cases "pool_size > 1")
        case True
        with pool have p: "1 \<le> bs" "sz + bs \<le> 2 ^ 32" by auto
        from block_cover_pool(1)[OF pos p] blocks_pos[OF p(1) pos] True
        show ?thesis by (simp add: blocks_def block_size_def)
      next
        case False
        then show ?thesis by (simp add: blocks_def)
      qed
      show "1 < blocks \<longrightarrow> blocks < sz \<and> blocks + bs \<le> 2 ^ 32 \<and> 1 < pool_size \<and> block_size = bs"
      proof
        assume b: "1 < blocks"
        then have P: "pool_size > 1" by (auto simp: blocks_def split: if_splits)
        with pool have p: "2 \<le> bs" "1 \<le> bs" "sz + bs \<le> 2 ^ 32" by auto
        have e: "blocks = (sz + bs - 1) div bs"
          using block_cover_pool(1)[OF pos p(2,3)] P by (simp add: blocks_def block_size_def)
        from blocks_less[OF p(1)] b e have "blocks < sz" by simp
        with p P show "blocks < sz \<and> blocks + bs \<le> 2 ^ 32 \<and> 1 < pool_size \<and> block_size = bs"
          by (simp add: block_size_def)
      qed
    qed
    let ?f2 = "\<lambda>scratch index. sum_reduce_2 F vt (mul32 index block_size)
                   (min (add32 (mul32 index block_size) block_size) sz) inp out index scratch ex"
    have unfold: "jitc_prefix_sum F pool_size bs vt0 ex inp sz out mem =
       (if blocks > 1 then
          (case jitc_submit_cpu
                  (\<lambda>index. sum_reduce_1 F vt (mul32 index block_size)
                              (min (add32 (mul32 index block_size) block_size) sz) mem inp index)
                  blocks (replicate blocks 0) of
             Inl e \<Rightarrow> Some (Inl e)
           | Inr scratch \<Rightarrow>
               Option.bind
                 (jitc_prefix_sum F pool_size bs vt True 0 blocks 0 scratch)
                 (\<lambda>r. case r of
                         Inl e \<Rightarrow> Some (Inl e)
                       | Inr scratch' \<Rightarrow> Some (jitc_submit_cpu (?f2 (Some scratch')) blocks mem)))
        else Some (jitc_submit_cpu (?f2 None) blocks mem))"
      unfolding blocks_def block_size_def vt_def
      by (rule trans[OF jitc_prefix_sum.simps]) (use False nz in \<open>auto simp: Let_def\<close>)
    have fin: "min (blocks * block_size) sz = sz" using cover by (simp add: block_cover_def)
    have finish: "\<exists>m'. Some (jitc_submit_cpu (?f2 scratch) blocks mem) = Some (Inr m')
             \<and> length m' = length mem
             \<and> (\<forall>i < sz. m' ! (out + i) = sum_list (take (if ex then i else Suc i) a))
             \<and> (\<forall>j<length mem. \<not> (out \<le> j \<and> j < out + sz) \<longrightarrow> m' ! j = mem ! j)"
      if acc: "\<forall>b<blocks. (case scratch of Some sc \<Rightarrow> sc ! b | None \<Rightarrow> 0) = sum_list (take (b * block_size) a)"
      for scratch
      using phase2_inv[OF cover ovl lens la inputs vt' acc order_refl, of F ex]
      unfolding fin jitc_submit_cpu_def by simp
    show ?thesis
    proof (cases "1 < blocks")
      case False
      with b1 have one: "blocks = 1" by simp
      have "\<forall>b<blocks. (case None of Some sc \<Rightarrow> sc ! b | None \<Rightarrow> (0::'a word)) = sum_list (take (b * block_size) a)"
        unfolding one by simp
      from finish[OF this] obtain m' where m': "jitc_submit_cpu (?f2 None) blocks mem = Inr m'"
        "length m' = length mem"
        "\<forall>i < sz. m' ! (out + i) = sum_list (take (if ex then i else Suc i) a)"
        "\<forall>j<length mem. \<not> (out \<le> j \<and> j < out + sz) \<longrightarrow> m' ! j = mem ! j"
        by auto
      have "jitc_prefix_sum F pool_size bs vt0 ex inp sz out mem = Some (Inr m')"
        unfolding unfold using False m'(1) by simp
      then show ?thesis using m'(2,3,4) unfolding a_def by blast
    next
      case True
      with rec have r: "blocks < sz" "blocks + bs \<le> 2 ^ 32" "1 < pool_size" "block_size = bs" by simp_all
      let ?scratch = "map (block_sum a block_size) [0..<blocks]"
      have ph1: "jitc_submit_cpu
                  (\<lambda>index. sum_reduce_1 F vt (mul32 index block_size)
                              (min (add32 (mul32 index block_size) block_size) sz) mem inp index)
                  blocks (replicate blocks 0) = Inr ?scratch"
        using phase1_inv[OF cover la inputs vt' order_refl, of F] by (simp add: jitc_submit_cpu_def)
      have v2: "vt = Int32 \<or> vt = UInt32 \<or> vt = UInt64" using vt' by auto
      have p2: "pool_size > 1 \<longrightarrow> 2 \<le> bs \<and> blocks + bs \<le> 2 ^ 32" using pool r by simp
      have s2: "blocks < 2 ^ 32" using r(1) szlt by simp
      have l2: "0 + blocks \<le> length ?scratch" by simp
      have o2: "(0::nat) = 0 \<or> 0 + blocks \<le> (0::nat) \<or> 0 + blocks \<le> (0::nat)" by simp
      from less.IH[OF r(1) v2 p2 s2 l2 l2 o2, where ex = True]
      obtain sc' where sc': "jitc_prefix_sum F pool_size bs vt True 0 blocks 0 ?scratch = Some (Inr sc')"
        "\<forall>i < blocks. sc' ! (0 + i) = sum_list (take (if True then i else Suc i) (take blocks (drop 0 ?scratch)))"
        by blast
      have acc: "\<forall>b<blocks. (case Some sc' of Some sc \<Rightarrow> sc ! b | None \<Rightarrow> 0) = sum_list (take (b * block_size) a)"
      proof (intro allI impI)
        fix b assume b: "b < blocks"
        with sc'(2) have e1: "sc' ! b = sum_list (take b ?scratch)" by simp
        have e2: "take b ?scratch = map (block_sum a block_size) [0..<b]"
          using b by (simp add: take_map)
        have e3: "sum_list (map (block_sum a block_size) [0..<b]) = sum_list (take (b * block_size) a)"
          using block_sums_prefix[OF cover la b] .
        show "(case Some sc' of Some sc \<Rightarrow> sc ! b | None \<Rightarrow> 0) = sum_list (take (b * block_size) a)"
          using e1 e2 e3 by simp
      qed
      from finish[OF acc] obtain m' where m': "jitc_submit_cpu (?f2 (Some sc')) blocks mem = Inr m'"
        "length m' = length mem"
        "\<forall>i < sz. m' ! (out + i) = sum_list (take (if ex then i else Suc i) a)"
        "\<forall>j<length mem. \<not> (out \<le> j \<and> j < out + sz) \<longrightarrow> m' ! j = mem ! j"
        by auto
      have "jitc_prefix_sum F pool_size bs vt0 ex inp sz out mem = Some (Inr m')"
        unfolding unfold ph1 using True sc'(1) m'(1) by simp
      then show ?thesis using m'(2,3,4) unfolding a_def by blast
    qed
  qed
qed





lemma sum_reduce_1_unsupported:
  "\<not> (vt = UInt32 \<or> vt = UInt64 \<or> vt = Float32 \<or> vt = Float64) \<Longrightarrow>
     sum_reduce_1 F vt start end mem inp index scratch =
       Inl (Raise ''jit_prefix_sum(): type is not supported!'')"
  by (cases vt) simp_all

lemma sum_reduce_2_unsupported:
  "\<not> (vt = UInt32 \<or> vt = UInt64 \<or> vt = Float32 \<or> vt = Float64) \<Longrightarrow>
     sum_reduce_2 F vt start end inp out index scratch ex mem =
       Inl (Raise ''jit_prefix_sum(): type is not supported!'')"
  by (cases vt) simp_all

lemma run_units_first_fault:
  "0 < n \<Longrightarrow> \<forall>s. f 0 s = Inl e \<Longrightarrow> run_units f [0..<n] s = Inl e"
  by (simp add: upt_conv_Cons)


lemma blocks_facts:
  assumes pos: "0 < sz" and szlt: "sz < 2 ^ 32"
      and pool: "pool_size > 1 \<longrightarrow> 2 \<le> bs \<and> sz + bs \<le> 2 ^ 32"
  defines "block_size \<equiv> (if pool_size > 1 then bs else sz)"
  defines "blocks \<equiv> (if pool_size > 1 then sub32 (add32 sz block_size) 1 div block_size else 1)"
  shows "1 \<le> blocks" and "1 < blocks \<longrightarrow> blocks < sz \<and> blocks + bs \<le> 2 ^ 32"
proof -
  show "1 \<le> blocks"
  proof (cases "pool_size > 1")
    case True
    with pool have p: "1 \<le> bs" "sz + bs \<le> 2 ^ 32" by auto
    from block_cover_pool(1)[OF pos p] blocks_pos[OF p(1) pos] True
    show ?thesis by (simp add: blocks_def block_size_def)
  next
    case False
    then show ?thesis by (simp add: blocks_def)
  qed
  show "1 < blocks \<longrightarrow> blocks < sz \<and> blocks + bs \<le> 2 ^ 32"
  proof
    assume b: "1 < blocks"
    then have P: "pool_size > 1" by (auto simp: blocks_def split: if_splits)
    with pool have p: "2 \<le> bs" "1 \<le> bs" "sz + bs \<le> 2 ^ 32" by auto
    have e: "blocks = (sz + bs - 1) div bs"
      using block_cover_pool(1)[OF pos p(2,3)] P by (simp add: blocks_def block_size_def)
    from blocks_less[OF p(1)] b e have "blocks < sz" by simp
    with p show "blocks < sz \<and> blocks + bs \<le> 2 ^ 32" by simp
  qed
qed


lemma jitc_prefix_sum_unsupported:
  fixes mem :: "'a::len word list"
  assumes vt: "\<not> (vt0 = Int32 \<or> vt0 = UInt32 \<or> vt0 = UInt64 \<or> vt0 = Float32 \<or> vt0 = Float64)"
      and pos: "0 < sz"
      and pool: "pool_size > 1 \<longrightarrow> 2 \<le> bs \<and> sz + bs \<le> 2 ^ 32"
      and szlt: "sz < 2 ^ 32"
  shows "jitc_prefix_sum F pool_size bs vt0 ex inp sz out mem =
           Some (Inl (Raise ''jit_prefix_sum(): type is not supported!''))"
proof -
  define vt where "vt = (if vt0 = Int32 then UInt32 else vt0)"
  have vt': "\<not> (vt = UInt32 \<or> vt = UInt64 \<or> vt = Float32 \<or> vt = Float64)"
    using vt by (auto simp: vt_def)
  define block_size where "block_size = (if pool_size > 1 then bs else sz)"
  define blocks where "blocks = (if pool_size > 1 then sub32 (add32 sz block_size) 1 div block_size else 1)"
  have nz: "\<not> (pool_size > 1 \<and> bs = 0)" using pool by auto
  have sz0: "sz \<noteq> 0" using pos by simp
  note bf = blocks_facts[OF pos szlt pool, folded block_size_def, folded blocks_def]
  let ?f1 = "\<lambda>index. sum_reduce_1 F vt (mul32 index block_size)
                            (min (add32 (mul32 index block_size) block_size) sz) mem inp index"
  let ?f2 = "\<lambda>scratch index. sum_reduce_2 F vt (mul32 index block_size)
                 (min (add32 (mul32 index block_size) block_size) sz) inp out index scratch ex"
  have unfold: "jitc_prefix_sum F pool_size bs vt0 ex inp sz out mem =
     (if blocks > 1 then
        (case jitc_submit_cpu ?f1 blocks (replicate blocks 0) of
           Inl e \<Rightarrow> Some (Inl e)
         | Inr scratch \<Rightarrow>
             Option.bind
               (jitc_prefix_sum F pool_size bs vt True 0 blocks 0 scratch)
               (\<lambda>r. case r of
                       Inl e \<Rightarrow> Some (Inl e)
                     | Inr scratch' \<Rightarrow> Some (jitc_submit_cpu (?f2 (Some scratch')) blocks mem)))
      else Some (jitc_submit_cpu (?f2 None) blocks mem))"
    unfolding blocks_def block_size_def vt_def
    by (rule trans[OF jitc_prefix_sum.simps]) (use sz0 nz in \<open>auto simp: Let_def\<close>)
  have b0: "0 < blocks" using bf(1) by simp
  have f1: "jitc_submit_cpu ?f1 blocks (replicate blocks 0) =
              Inl (Raise ''jit_prefix_sum(): type is not supported!'')"
    unfolding jitc_submit_cpu_def
    by (rule run_units_first_fault[OF b0]) (simp add: sum_reduce_1_unsupported[OF vt'])
  have f2: "jitc_submit_cpu (?f2 None) blocks mem =
              Inl (Raise ''jit_prefix_sum(): type is not supported!'')"
    unfolding jitc_submit_cpu_def
    by (rule run_units_first_fault[OF b0]) (simp add: sum_reduce_2_unsupported[OF vt'])
  show ?thesis unfolding unfold f1 f2 by simp
qed


text \<open>The scenario of the specification: the scans of \<open>[1, 2, 3, 4]\<close> with blocks of two elements.\<close>

lemma jitc_prefix_sum_example:
  "jitc_prefix_sum fpu0 2 2 UInt32 True 0 4 0 [1, 2, 3, 4] = Some (Inr [0, 1, 3, 6])"
  "jitc_prefix_sum fpu0 2 2 UInt32 False 0 4 0 [1, 2, 3, 4] = Some (Inr [1, 3, 6, 10])"
  by (simp_all add: jitc_prefix_sum.simps jitc_submit_cpu_def Let_def add32_def sub32_def mul32_def
        range32_def sum_reduce_1_T_def sum_reduce_2_T_def upt_rec)









subsection \<open>Mask compression\<close>

lemma nonzero_positions_0: "nonzero_positions inp 0 = []"
  by (simp add: nonzero_positions_def)

lemma nonzero_positions_Suc:
  "nonzero_positions inp (Suc n) = nonzero_positions inp n @ (if inp ! n \<noteq> 0 then [n] else [])"
  by (simp add: nonzero_positions_def)

lemma nonzero_positions_length: "length (nonzero_positions inp n) \<le> n"
  unfolding nonzero_positions_def using length_filter_le[of _ "[0..<n]"] by simp

lemma nonzero_positions_mono:
  "m \<le> n \<Longrightarrow> length (nonzero_positions inp m) \<le> length (nonzero_positions inp n)"
proof (induction n)
  case 0
  then show ?case by simp
next
  case (Suc n)
  show ?case
  proof (cases "m = Suc n")
    case True
    then show ?thesis by simp
  next
    case False
    with Suc.prems have "m \<le> n" by simp
    from Suc.IH[OF this] show ?thesis by (simp add: nonzero_positions_Suc)
  qed
qed

lemma nonzero_count_0: "nonzero_count inp 0 = 0"
  by (simp add: nonzero_count_def nonzero_positions_0)

lemma nonzero_count_Suc:
  "inp ! n = 0 \<or> inp ! n = 1 \<Longrightarrow>
     nonzero_count inp (Suc n) = nonzero_count inp n + ucast (inp ! n)"
  by (auto simp: nonzero_count_def nonzero_positions_Suc)

lemma unat_nonzero_count:
  "n < 2 ^ 32 \<Longrightarrow> unat (nonzero_count inp n) = length (nonzero_positions inp n)"
proof -
  assume "n < 2 ^ 32"
  with nonzero_positions_length[of inp n] have "length (nonzero_positions inp n) < 2 ^ 32"
    by (rule le_less_trans)
  then show ?thesis unfolding nonzero_count_def by (simp add: unat_of_nat)
qed

lemma count_fold:
  assumes "\<forall>i. s \<le> i \<and> i < s + k \<longrightarrow> inp ! i = 0 \<or> inp ! i = 1"
  shows "fold (\<lambda>i accum. accum + ucast (inp ! i)) [s..<s + k] acc =
           acc + nonzero_count inp (s + k) - nonzero_count inp s"
  using assms
proof (induction k)
  case 0
  then show ?case by simp
next
  case (Suc k)
  then have b: "inp ! (s + k) = 0 \<or> inp ! (s + k) = 1" by simp
  have IH: "fold (\<lambda>i accum. accum + ucast (inp ! i)) [s..<s + k] acc =
           acc + nonzero_count inp (s + k) - nonzero_count inp s"
    using Suc.IH Suc.prems by simp
  have "fold (\<lambda>i accum. accum + ucast (inp ! i)) [s..<s + Suc k] acc =
        fold (\<lambda>i accum. accum + ucast (inp ! i)) [s..<s + k] acc + ucast (inp ! (s + k))"
    by simp
  also have "\<dots> = acc + nonzero_count inp (Suc (s + k)) - nonzero_count inp s"
    unfolding IH nonzero_count_Suc[OF b] by simp
  finally show ?case by simp
qed

lemma write_fold:
  assumes bytes: "\<forall>i. s \<le> i \<and> i < s + k \<longrightarrow> inp ! i = 0 \<or> inp ! i = 1"
      and lt: "s + k < 2 ^ 32"
      and room: "length (nonzero_positions inp (s + k)) \<le> length out"
      and pre: "take (length (nonzero_positions inp s)) out = map word_of_nat (nonzero_positions inp s)"
  shows "case fold (\<lambda>i (accum, out).
                      (let v = (ucast (inp ! i) :: 32 word)
                       in (accum + v, if v \<noteq> 0 then out[unat accum := word_of_nat i] else out)))
                [s..<s + k] (nonzero_count inp s, out) of
           (acc, out') \<Rightarrow> acc = nonzero_count inp (s + k) \<and> length out' = length out
              \<and> take (length (nonzero_positions inp (s + k))) out' =
                  map word_of_nat (nonzero_positions inp (s + k))"
  using bytes lt room
proof (induction k)
  case 0
  then show ?case using pre by simp
next
  case (Suc k)
  let ?step = "\<lambda>i (accum, out).
                      (let v = (ucast (inp ! i) :: 32 word)
                       in (accum + v, if v \<noteq> 0 then out[unat accum := word_of_nat i] else out))"
  let ?n = "length (nonzero_positions inp (s + k))"
  have b: "inp ! (s + k) = 0 \<or> inp ! (s + k) = 1" using Suc.prems(1) by simp
  have lt': "s + k < 2 ^ 32" using Suc.prems(2) by simp
  have "?n \<le> length (nonzero_positions inp (s + Suc k))"
    by (rule nonzero_positions_mono) simp
  with Suc.prems(3) have room': "?n \<le> length out" by simp
  obtain acc out1 where f: "fold ?step [s..<s + k] (nonzero_count inp s, out) = (acc, out1)"
    by (cases "fold ?step [s..<s + k] (nonzero_count inp s, out)")
  have bytes': "\<forall>i. s \<le> i \<and> i < s + k \<longrightarrow> inp ! i = 0 \<or> inp ! i = 1"
    using Suc.prems(1) by simp
  from Suc.IH[OF bytes' lt' room'] f
  have I: "acc = nonzero_count inp (s + k)" "length out1 = length out"
          "take ?n out1 = map word_of_nat (nonzero_positions inp (s + k))"
    by simp_all
  have un: "unat acc = ?n" unfolding I(1) by (rule unat_nonzero_count[OF lt'])
  have e: "fold ?step [s..<s + Suc k] (nonzero_count inp s, out) = ?step (s + k) (acc, out1)"
    using f by simp
  show ?case
  proof (cases "inp ! (s + k) = 0")
    case True
    then have "?step (s + k) (acc, out1) = (acc, out1)" by simp
    moreover have "nonzero_positions inp (s + Suc k) = nonzero_positions inp (s + k)"
      using True by (simp add: nonzero_positions_Suc)
    moreover have "nonzero_count inp (s + Suc k) = nonzero_count inp (s + k)"
      using True nonzero_count_Suc[OF b] by simp
    ultimately show ?thesis unfolding e using I by simp
  next
    case False
    with b have one: "inp ! (s + k) = 1" by simp
    have st: "?step (s + k) (acc, out1) = (acc + 1, out1[?n := word_of_nat (s + k)])"
      using one un by simp
    have P: "nonzero_positions inp (Suc (s + k)) = nonzero_positions inp (s + k) @ [s + k]"
      using one by (simp add: nonzero_positions_Suc)
    have C: "nonzero_count inp (Suc (s + k)) = acc + 1"
      using one nonzero_count_Suc[OF b] I(1) by simp
    have nl: "?n < length out1" using Suc.prems(3) I(2) by (simp add: P)
    have T: "take (Suc ?n) (out1[?n := word_of_nat (s + k)]) =
             map word_of_nat (nonzero_positions inp (s + k)) @ [word_of_nat (s + k)]"
      using nl I(3) by (simp add: take_Suc_conv_app_nth)
    have T': "take (length (nonzero_positions inp (Suc (s + k)))) (out1[?n := word_of_nat (s + k)]) =
             map word_of_nat (nonzero_positions inp (Suc (s + k)))"
      unfolding P using T by simp
    have R: "fold ?step [s..<s + Suc k] (nonzero_count inp s, out) =
               (acc + 1, out1[?n := word_of_nat (s + k)])"
      unfolding e st ..
    show ?thesis unfolding R prod.case using C I(2) T' by simp
  qed
qed

lemma blocks_cover:
  assumes pos: "0 < sz" and szlt: "sz < 2 ^ 32"
      and pool: "pool_size > 1 \<longrightarrow> 2 \<le> bs \<and> sz + bs \<le> 2 ^ 32"
  shows "block_cover sz (if pool_size > 1 then bs else sz)
           (if pool_size > 1 then sub32 (add32 sz (if pool_size > 1 then bs else sz)) 1
                                    div (if pool_size > 1 then bs else sz) else 1)"
proof (cases "pool_size > 1")
  case True
  with pool have p: "1 \<le> bs" "sz + bs \<le> 2 ^ 32" by auto
  from block_cover_pool[OF pos p] True show ?thesis by simp
next
  case False
  with block_cover_single[OF pos szlt] show ?thesis by simp
qed

lemma compress_phase1:
  assumes cover: "block_cover sz bs blocks"
      and bytes: "\<forall>i < sz. inp ! i = 0 \<or> inp ! i = 1"
  shows "k \<le> blocks \<Longrightarrow>
     fold (\<lambda>index. compress_count inp (mul32 index bs) (min (add32 (mul32 index bs) bs) sz) index)
       [0..<k] (replicate blocks 0) =
     map (\<lambda>b. nonzero_count inp (min (b * bs + bs) sz) - nonzero_count inp (b * bs)) [0..<k]
       @ replicate (blocks - k) 0"
proof (induction k)
  case 0
  then show ?case by simp
next
  case (Suc k)
  then have kb: "k < blocks" "k \<le> blocks" by simp_all
  note bf = block_cover_facts[OF cover kb(1)]
  let ?s = "k * bs" and ?e = "min (k * bs + bs) sz"
  let ?g = "\<lambda>b. nonzero_count inp (min (b * bs + bs) sz) - nonzero_count inp (b * bs)"
  have se: "?s + (?e - ?s) = ?e" using bf(5) by simp
  have by': "\<forall>i. ?s \<le> i \<and> i < ?s + (?e - ?s) \<longrightarrow> inp ! i = 0 \<or> inp ! i = 1"
    unfolding se using bytes by simp
  from count_fold[OF by', of 0]
  have f: "fold (\<lambda>i accum. accum + ucast (inp ! i)) [?s..<?e] (0::32 word) = ?g k"
    unfolding se by simp
  have r: "replicate (blocks - k) (0::32 word) = 0 # replicate (blocks - Suc k) 0"
    using kb(1) by (simp add: Suc_diff_Suc flip: replicate_Suc)
  have u: "(map ?g [0..<k] @ replicate (blocks - k) 0)[k := ?g k] =
           map ?g [0..<Suc k] @ replicate (blocks - Suc k) 0"
    unfolding r using list_update_length[of "map ?g [0..<k]" 0 _ "?g k"]
    by simp
  let ?f = "\<lambda>index. compress_count inp (mul32 index bs) (min (add32 (mul32 index bs) bs) sz) index"
  let ?sk = "map ?g [0..<k] @ replicate (blocks - k) 0"
  have IH: "fold ?f [0..<k] (replicate blocks 0) = ?sk" using Suc.IH[OF kb(2)] .
  have step: "?f k ?sk = ?sk[k := ?g k]"
    unfolding compress_count_def bf(1) bf(2) bf(6) f ..
  have "fold ?f [0..<Suc k] (replicate blocks 0) = ?f k (fold ?f [0..<k] (replicate blocks 0))"
    by simp
  also have "\<dots> = ?f k ?sk" unfolding IH ..
  also have "\<dots> = map ?g [0..<Suc k] @ replicate (blocks - Suc k) 0"
    unfolding step u ..
  finally show ?case .
qed

lemma block_counts_prefix:
  assumes cover: "block_cover sz bs blocks"
  shows "b < blocks \<Longrightarrow>
     sum_list (map (\<lambda>b. nonzero_count inp (min (b * bs + bs) sz) - nonzero_count inp (b * bs)) [0..<b])
       = nonzero_count inp (b * bs)"
proof (induction b)
  case 0
  then show ?case by (simp add: nonzero_count_0)
next
  case (Suc b)
  then have b: "b < blocks" by simp
  from block_cover_facts(7)[OF cover b Suc.prems]
  have e: "min (b * bs + bs) sz = Suc b * bs" .
  let ?g = "\<lambda>b. nonzero_count inp (min (b * bs + bs) sz) - nonzero_count inp (b * bs)"
  have "sum_list (map ?g [0..<Suc b]) = sum_list (map ?g [0..<b]) + ?g b" by simp
  also have "\<dots> = nonzero_count inp (b * bs) + (nonzero_count inp (Suc b * bs) - nonzero_count inp (b * bs))"
    unfolding Suc.IH[OF b] e ..
  also have "\<dots> = nonzero_count inp (Suc b * bs)" by simp
  finally show ?case .
qed

lemma compress_phase2:
  assumes cover: "block_cover sz bs blocks"
      and bytes: "\<forall>i < sz. inp ! i = 0 \<or> inp ! i = 1"
      and room: "length (nonzero_positions inp sz) \<le> length out"
      and acc: "\<forall>b<blocks. (case scratch of Some sc \<Rightarrow> sc ! b | None \<Rightarrow> 0) = nonzero_count inp (b * bs)"
  shows "k \<le> blocks \<Longrightarrow>
     (case fold (\<lambda>index. compress_write inp sz (mul32 index bs)
                            (min (add32 (mul32 index bs) bs) sz) index scratch)
             [0..<k] (out, 0) of
        (out', c) \<Rightarrow> length out' = length out
           \<and> take (length (nonzero_positions inp (min (k * bs) sz))) out' =
               map word_of_nat (nonzero_positions inp (min (k * bs) sz))
           \<and> (0 < k \<and> k = blocks \<longrightarrow> c = nonzero_count inp sz))"
proof (induction k)
  case 0
  then show ?case by (simp add: nonzero_positions_0)
next
  case (Suc k)
  then have kb: "k < blocks" "k \<le> blocks" by simp_all
  note bf = block_cover_facts[OF cover kb(1)]
  from cover have szlt: "sz < 2 ^ 32" by (simp add: block_cover_def)
  let ?s = "k * bs" and ?e = "min (k * bs + bs) sz"
  let ?f = "\<lambda>index. compress_write inp sz (mul32 index bs)
                            (min (add32 (mul32 index bs) bs) sz) index scratch"
  let ?step = "\<lambda>i (accum, out).
                      (let v = (ucast (inp ! i) :: 32 word)
                       in (accum + v, if v \<noteq> 0 then out[unat accum := word_of_nat i] else out))"
  have se: "?s + (?e - ?s) = ?e" using bf(5) by simp
  have ms: "min ?s sz = ?s" using bf(3) by simp
  have me: "min (Suc k * bs) sz = ?e" by (simp add: add.commute)
  obtain outk ck where fk: "fold ?f [0..<k] (out, 0) = (outk, ck)"
    by (cases "fold ?f [0..<k] (out, 0)")
  from Suc.IH[OF kb(2)] fk
  have I: "length outk = length out"
          "take (length (nonzero_positions inp ?s)) outk = map word_of_nat (nonzero_positions inp ?s)"
    unfolding ms by simp_all
  have by': "\<forall>i. ?s \<le> i \<and> i < ?s + (?e - ?s) \<longrightarrow> inp ! i = 0 \<or> inp ! i = 1"
    unfolding se using bytes by simp
  have lt: "?s + (?e - ?s) < 2 ^ 32" unfolding se using szlt by simp
  have "length (nonzero_positions inp ?e) \<le> length (nonzero_positions inp sz)"
    by (rule nonzero_positions_mono) simp
  then have room': "length (nonzero_positions inp (?s + (?e - ?s))) \<le> length outk"
    unfolding se I(1) using room by simp
  obtain a1 out1 where f1: "fold ?step [?s..<?e] (nonzero_count inp ?s, outk) = (a1, out1)"
    by (cases "fold ?step [?s..<?e] (nonzero_count inp ?s, outk)")
  from write_fold[OF by' lt room' I(2)] f1
  have W: "a1 = nonzero_count inp ?e" "length out1 = length outk"
          "take (length (nonzero_positions inp ?e)) out1 = map word_of_nat (nonzero_positions inp ?e)"
    unfolding se by simp_all
  have a0: "(case scratch of Some sc \<Rightarrow> sc ! k | None \<Rightarrow> 0) = nonzero_count inp ?s"
    using acc kb(1) by blast
  have step: "?f k (outk, ck) = (out1, if ?e = sz then a1 else ck)"
    unfolding compress_write_def bf(1) bf(2) bf(6) a0 prod.case f1 ..
  have "fold ?f [0..<Suc k] (out, 0) = ?f k (fold ?f [0..<k] (out, 0))" by simp
  also have "\<dots> = (out1, if ?e = sz then a1 else ck)" unfolding fk step ..
  finally have R: "fold ?f [0..<Suc k] (out, 0) = (out1, if ?e = sz then a1 else ck)" .
  have last: "Suc k = blocks \<longrightarrow> (if ?e = sz then a1 else ck) = nonzero_count inp sz"
  proof
    assume "Suc k = blocks"
    from bf(8)[OF this] have "?e = sz" .
    then show "(if ?e = sz then a1 else ck) = nonzero_count inp sz" using W(1) by simp
  qed
  show ?case unfolding R prod.case me using W(2,3) I(1) last by simp
qed

lemma jitc_compress_positions:
  assumes pos: "0 < sz" and szlt: "sz < 2 ^ 32"
      and pool: "pool_size > 1 \<longrightarrow> 2 \<le> bs \<and> sz + bs \<le> 2 ^ 32"
      and bytes: "\<forall>i < sz. inp ! i = 0 \<or> inp ! i = 1"
      and room: "length (nonzero_positions inp sz) \<le> length out"
  shows "\<exists>out'. jitc_compress F pool_size bs inp sz out = Some (Inr (nonzero_count inp sz, out'))
           \<and> length out' = length out
           \<and> take (length (nonzero_positions inp sz)) out' =
               map word_of_nat (nonzero_positions inp sz)"
proof -
  define block_size where "block_size = (if pool_size > 1 then bs else sz)"
  define blocks where "blocks = (if pool_size > 1 then sub32 (add32 sz block_size) 1 div block_size else 1)"
  have nz: "\<not> (pool_size > 1 \<and> bs = 0)" using pool by auto
  have sz0: "sz \<noteq> 0" using pos by simp
  note cover = blocks_cover[OF pos szlt pool, folded block_size_def, folded blocks_def]
  note bf = blocks_facts[OF pos szlt pool, folded block_size_def, folded blocks_def]
  let ?f1 = "\<lambda>index. compress_count inp (mul32 index block_size)
                         (min (add32 (mul32 index block_size) block_size) sz) index"
  let ?f2 = "\<lambda>scratch index. compress_write inp sz (mul32 index block_size)
                         (min (add32 (mul32 index block_size) block_size) sz) index scratch"
  let ?pass2 = "\<lambda>scratch. case fold (?f2 scratch) [0..<blocks] (out, 0) of
                          (out1, count_out) \<Rightarrow> (count_out, out1)"
  have unfold: "jitc_compress F pool_size bs inp sz out =
     (if blocks > 1 then
        Option.bind
          (jitc_prefix_sum F pool_size bs UInt32 True 0 blocks 0
             (fold ?f1 [0..<blocks] (replicate blocks 0)))
          (\<lambda>r. case r of
                  Inl e \<Rightarrow> Some (Inl e)
                | Inr scratch \<Rightarrow> Some (Inr (?pass2 (Some scratch))))
      else Some (Inr (?pass2 None)))"
    unfolding blocks_def block_size_def jitc_compress_def
    using sz0 nz by (auto simp: Let_def)
  have b0: "0 < blocks" using bf(1) by simp
  have msz: "min (blocks * block_size) sz = sz" using cover by (simp add: block_cover_def)
  have finish: "\<exists>out'. ?pass2 scratch = (nonzero_count inp sz, out')
           \<and> length out' = length out
           \<and> take (length (nonzero_positions inp sz)) out' =
               map word_of_nat (nonzero_positions inp sz)"
    if acc: "\<forall>b<blocks. (case scratch of Some sc \<Rightarrow> sc ! b | None \<Rightarrow> 0) = nonzero_count inp (b * block_size)"
    for scratch
  proof -
    obtain o1 c1 where f: "fold (?f2 scratch) [0..<blocks] (out, 0) = (o1, c1)"
      by (cases "fold (?f2 scratch) [0..<blocks] (out, 0)")
    from compress_phase2[OF cover bytes room acc order_refl] f b0
    have "length o1 = length out"
         "take (length (nonzero_positions inp sz)) o1 = map word_of_nat (nonzero_positions inp sz)"
         "c1 = nonzero_count inp sz"
      unfolding msz by simp_all
    then show ?thesis unfolding f by simp
  qed
  show ?thesis
  proof (cases "1 < blocks")
    case False
    with bf(1) have one: "blocks = 1" by simp
    have "\<forall>b<blocks. (case None of Some sc \<Rightarrow> sc ! b | None \<Rightarrow> (0::32 word)) = nonzero_count inp (b * block_size)"
      unfolding one by (simp add: nonzero_count_0)
    from finish[OF this] False show ?thesis unfolding unfold by simp
  next
    case True
    with bf(2) have r: "blocks < sz" "blocks + bs \<le> 2 ^ 32" by simp_all
    let ?g = "\<lambda>b. nonzero_count inp (min (b * block_size + block_size) sz) - nonzero_count inp (b * block_size)"
    let ?scratch = "map ?g [0..<blocks]"
    have ph1: "fold ?f1 [0..<blocks] (replicate blocks 0) = ?scratch"
      using compress_phase1[OF cover bytes order_refl] by simp
    have v2: "UInt32 = Int32 \<or> UInt32 = UInt32 \<or> UInt32 = UInt64" by simp
    have p2: "pool_size > 1 \<longrightarrow> 2 \<le> bs \<and> blocks + bs \<le> 2 ^ 32" using pool r by simp
    have s2: "blocks < 2 ^ 32" using r(1) szlt by simp
    have l2: "0 + blocks \<le> length ?scratch" by simp
    have o2: "(0::nat) = 0 \<or> 0 + blocks \<le> (0::nat) \<or> 0 + blocks \<le> (0::nat)" by simp
    from jitc_prefix_sum_scan[OF v2 p2 s2 l2 l2 o2, where ex = True and F = F]
    obtain sc' where sc': "jitc_prefix_sum F pool_size bs UInt32 True 0 blocks 0 ?scratch = Some (Inr sc')"
      "\<forall>i < blocks. sc' ! (0 + i) = sum_list (take (if True then i else Suc i) (take blocks (drop 0 ?scratch)))"
      by blast
    have acc: "\<forall>b<blocks. (case Some sc' of Some sc \<Rightarrow> sc ! b | None \<Rightarrow> 0) = nonzero_count inp (b * block_size)"
    proof (intro allI impI)
      fix b assume b: "b < blocks"
      with sc'(2) have e1: "sc' ! b = sum_list (take b ?scratch)" by simp
      have e2: "take b ?scratch = map ?g [0..<b]"
        using b by (simp add: take_map)
      have e3: "sum_list (map ?g [0..<b]) = nonzero_count inp (b * block_size)"
        using block_counts_prefix[OF cover b] .
      show "(case Some sc' of Some sc \<Rightarrow> sc ! b | None \<Rightarrow> 0) = nonzero_count inp (b * block_size)"
        using e1 e2 e3 by simp
    qed
    from finish[OF acc] True show ?thesis unfolding unfold ph1 sc'(1) by simp
  qed
qed

lemma sum_unat_bytes:
  fixes inp :: "8 word list"
  shows "n \<le> length inp \<Longrightarrow> \<forall>i < n. inp ! i = 0 \<or> inp ! i = 1 \<Longrightarrow>
           sum_list (map unat (take n inp)) = length (nonzero_positions inp n)"
proof (induction n)
  case 0
  then show ?case by (simp add: nonzero_positions_0)
next
  case (Suc n)
  then have n: "n < length inp" and b: "inp ! n = 0 \<or> inp ! n = 1" by simp_all
  have IH: "sum_list (map unat (take n inp)) = length (nonzero_positions inp n)"
    using Suc by simp
  show ?case using b IH by (auto simp: take_Suc_conv_app_nth[OF n] nonzero_positions_Suc)
qed

lemma nonzero_positions_set:
  "set (nonzero_positions inp n) = {i. i < n \<and> inp ! i \<noteq> 0}"
  by (auto simp: nonzero_positions_def)

lemma nonzero_positions_sorted: "sorted_wrt (<) (nonzero_positions inp n)"
  unfolding nonzero_positions_def by (rule sorted_wrt_filter) simp

text \<open>A mask of five bytes, compressed with blocks of two elements.\<close>

lemma jitc_compress_example:
  "jitc_compress fpu0 2 2 [1, 0, 1, 1, 0] 5 [0, 0, 0, 0, 0] = Some (Inr (3, [0, 2, 3, 0, 0]))"
  by (simp add: jitc_compress_def jitc_prefix_sum.simps jitc_submit_cpu_def Let_def add32_def
        sub32_def mul32_def range32_def sum_reduce_1_T_def sum_reduce_2_T_def upt_rec
        compress_count_def compress_write_def)

text \<open>
  The compaction within the range of sizes whose block count does not wrap around. For a
  mask \<open>b\<close> of \<open>n > 0\<close> bytes with values in \<open>{0, 1}\<close>, \<^verbatim>\<open>jitc_compress\<close> on the host
  (per-block counts, the exclusive prefix sum of the counts when there are several blocks,
  and the pass that writes the positions from the carried-in offsets) returns; the
  returned count is the sum of the bytes; the first \<open>count\<close> entries \<open>I\<close> of the output
  are positions below \<open>n\<close> with \<open>b[I[k]] = 1\<close>, they are strictly increasing, and every
  position of a set byte is among them. The output has room for \<open>n\<close> entries, and with a
  pool of more than one worker \<open>n\<close> plus the block size is at most \<open>2^32\<close>.
\<close>

theorem jitc_compress_correct:
  assumes pos: "0 < sz" and szlt: "sz < 2 ^ 32"
      and pool: "pool_size > 1 \<longrightarrow> 2 \<le> llvm_block_size \<and> sz + llvm_block_size \<le> 2 ^ 32"
      and len: "sz \<le> length inp" "sz \<le> length out"
      and bytes: "\<forall>i < sz. inp ! i = 0 \<or> inp ! i = 1"
  shows "\<exists>count out'. jitc_compress F pool_size llvm_block_size inp sz out = Some (Inr (count, out'))
           \<and> unat count = sum_list (map unat (take sz inp))
           \<and> (\<forall>k < unat count. unat (out' ! k) < sz \<and> inp ! unat (out' ! k) = 1)
           \<and> (\<forall>k. k + 1 < unat count \<longrightarrow> out' ! k < out' ! (k + 1))
           \<and> (\<forall>i < sz. inp ! i = 1 \<longrightarrow> (\<exists>k < unat count. unat (out' ! k) = i))"
proof -
  let ?P = "nonzero_positions inp sz"
  have "length ?P \<le> sz" by (rule nonzero_positions_length)
  with len(2) have room: "length ?P \<le> length out" by simp
  from jitc_compress_positions[OF pos szlt pool bytes room, of F] obtain out' where
    o: "jitc_compress F pool_size llvm_block_size inp sz out = Some (Inr (nonzero_count inp sz, out'))"
       "length out' = length out"
       "take (length ?P) out' = map word_of_nat ?P"
    by blast
  have uc: "unat (nonzero_count inp sz) = length ?P" by (rule unat_nonzero_count[OF szlt])
  have nth: "out' ! k = word_of_nat (?P ! k)" if "k < length ?P" for k
  proof -
    have "out' ! k = take (length ?P) out' ! k" using that by simp
    also have "\<dots> = word_of_nat (?P ! k)" unfolding o(3) using that by simp
    finally show ?thesis .
  qed
  have mem: "?P ! k < sz \<and> inp ! (?P ! k) \<noteq> 0" if "k < length ?P" for k
  proof -
    from that have "?P ! k \<in> set ?P" by simp
    then show ?thesis unfolding nonzero_positions_set by simp
  qed
  have un: "unat (out' ! k) = ?P ! k" if "k < length ?P" for k
  proof -
    from mem[OF that] szlt have "?P ! k < 2 ^ 32" by simp
    then show ?thesis unfolding nth[OF that] by (simp add: unat_of_nat)
  qed
  have A: "unat (nonzero_count inp sz) = sum_list (map unat (take sz inp))"
    unfolding uc using sum_unat_bytes[OF len(1) bytes] by simp
  have B: "\<forall>k < unat (nonzero_count inp sz). unat (out' ! k) < sz \<and> inp ! unat (out' ! k) = 1"
  proof (intro allI impI)
    fix k assume "k < unat (nonzero_count inp sz)"
    then have k: "k < length ?P" unfolding uc .
    from mem[OF k] bytes have "?P ! k < sz \<and> inp ! (?P ! k) = 1" by blast
    then show "unat (out' ! k) < sz \<and> inp ! unat (out' ! k) = 1" unfolding un[OF k] .
  qed
  have C: "\<forall>k. k + 1 < unat (nonzero_count inp sz) \<longrightarrow> out' ! k < out' ! (k + 1)"
  proof (intro allI impI)
    fix k assume "k + 1 < unat (nonzero_count inp sz)"
    then have k1: "k + 1 < length ?P" unfolding uc .
    then have k: "k < length ?P" by simp
    have "?P ! k < ?P ! (k + 1)"
      using sorted_wrt_nth_less[OF nonzero_positions_sorted _ k1, of k] by simp
    then have "unat (out' ! k) < unat (out' ! (k + 1))" unfolding un[OF k] un[OF k1] .
    then show "out' ! k < out' ! (k + 1)" by (simp add: word_less_nat_alt)
  qed
  have D: "\<forall>i < sz. inp ! i = 1 \<longrightarrow> (\<exists>k < unat (nonzero_count inp sz). unat (out' ! k) = i)"
  proof (intro allI impI)
    fix i assume i: "i < sz" "inp ! i = 1"
    then have "i \<in> set ?P" unfolding nonzero_positions_set by simp
    then obtain k where k: "k < length ?P" "?P ! k = i" by (auto simp: in_set_conv_nth)
    then show "\<exists>k < unat (nonzero_count inp sz). unat (out' ! k) = i"
      unfolding uc using un[OF k(1)] by auto
  qed
  from o(1) A B C D show ?thesis by blast
qed

theorem jitc_compress_correct_witness:
  "(0::nat) < 5 \<and> (5::nat) + 2 \<le> 2 ^ 32 \<and> 5 \<le> length [1, 0, 1, 1, 0 :: 8 word]
   \<and> (\<exists>count out'. jitc_compress fpu0 2 2 [1, 0, 1, 1, 0] 5 [0, 0, 0, 0, 0] = Some (Inr (count, out'))
          \<and> unat count = 3 \<and> unat (out' ! 0) < 5
          \<and> [1, 0, 1, 1, 0 :: 8 word] ! unat (out' ! 0) = 1
          \<and> out' ! 0 < out' ! 1 \<and> out' ! 1 < out' ! 2)"
proof -
  have pos: "(0::nat) < 5" by simp
  have szlt: "(5::nat) < 2 ^ 32" by simp
  have pool: "(2::nat) > 1 \<longrightarrow> 2 \<le> (2::nat) \<and> (5::nat) + 2 \<le> 2 ^ 32" by simp
  have len1: "5 \<le> length [1, 0, 1, 1, 0 :: 8 word]" by simp
  have len2: "5 \<le> length [0, 0, 0, 0, 0 :: 32 word]" by simp
  have bytes: "\<forall>i < 5. [1, 0, 1, 1, 0 :: 8 word] ! i = 0 \<or> [1, 0, 1, 1, 0 :: 8 word] ! i = 1"
  proof (intro allI impI)
    fix i :: nat assume "i < 5"
    then have "i = 0 \<or> i = 1 \<or> i = 2 \<or> i = 3 \<or> i = 4" by arith
    then show "[1, 0, 1, 1, 0 :: 8 word] ! i = 0 \<or> [1, 0, 1, 1, 0 :: 8 word] ! i = 1"
      by (auto simp: eval_nat_numeral)
  qed
  note T = jitc_compress_correct[OF pos szlt pool len1 len2 bytes, of fpu0]
  obtain count out' where c:
    "jitc_compress fpu0 2 2 [1, 0, 1, 1, 0] 5 [0, 0, 0, 0, 0] = Some (Inr (count, out'))"
    "unat count = sum_list (map unat (take 5 [1, 0, 1, 1, 0 :: 8 word]))"
    "\<forall>k < unat count. unat (out' ! k) < 5 \<and> [1, 0, 1, 1, 0 :: 8 word] ! unat (out' ! k) = 1"
    "\<forall>k. k + 1 < unat count \<longrightarrow> out' ! k < out' ! (k + 1)"
    using T by (elim exE conjE) (rule that; assumption)
  have n: "unat count = 3" using c(2) by simp
  have a: "unat (out' ! 0) < 5 \<and> [1, 0, 1, 1, 0 :: 8 word] ! unat (out' ! 0) = 1"
    using c(3)[rule_format, of 0] n by simp
  have b: "out' ! 0 < out' ! 1" using c(4)[rule_format, of 0] n by simp
  have d: "out' ! 1 < out' ! 2" using c(4)[rule_format, of 1] n by (simp add: eval_nat_numeral)
  have h: "(0::nat) < 5 \<and> (5::nat) + 2 \<le> 2 ^ 32 \<and> 5 \<le> length [1, 0, 1, 1, 0 :: 8 word]"
    by simp
  from h c(1) n a b d show ?thesis by blast
qed

subsection \<open>Reductions, and the boolean reductions built on them\<close>

lemma fold_monoid:
  assumes assoc: "\<And>a b c. f (f a b) c = f a (f b c)"
      and idl: "\<And>a. f e a = a" and idr: "\<And>a. f a e = a"
  shows "fold (\<lambda>x r. f r x) xs a = f a (fold (\<lambda>x r. f r x) xs e)"
proof (induction xs arbitrary: a)
  case Nil
  then show ?case by (simp add: idr)
next
  case (Cons x xs)
  have "fold (\<lambda>x r. f r x) (x # xs) a = f (f a x) (fold (\<lambda>x r. f r x) xs e)"
    using Cons[of "f a x"] by simp
  also have "\<dots> = f a (f x (fold (\<lambda>x r. f r x) xs e))" by (rule assoc)
  also have "f x (fold (\<lambda>x r. f r x) xs e) = fold (\<lambda>x r. f r x) (x # xs) e"
    using Cons[of "f e x"] by (simp add: idl)
  finally show ?case .
qed

lemma reduce_loop_slice:
  assumes "s \<le> t" "t < 2 ^ 32" "t \<le> length ptr"
  shows "reduce_loop f e ptr s t = fold (\<lambda>x r. f r x) (take (t - s) (drop s ptr)) e"
proof -
  have m: "map ((!) ptr) [s..<t] = take (t - s) (drop s ptr)"
    using assms by (intro nth_equalityI) simp_all
  have "reduce_loop f e ptr s t = fold (\<lambda>i r. f r (ptr ! i)) [s..<t] e"
    unfolding reduce_loop_def range32_upt[OF assms(1,2)] ..
  also have "\<dots> = fold (\<lambda>x r. f r x) (map ((!) ptr) [s..<t]) e"
    by (simp add: fold_map comp_def)
  finally show ?thesis unfolding m .
qed

lemma blocks_fold:
  assumes assoc: "\<And>a b c. f (f a b) c = f a (f b c)"
      and idl: "\<And>a. f e a = a" and idr: "\<And>a. f a e = a"
      and cover: "block_cover sz bs blocks"
      and len: "sz \<le> length ptr"
  shows "k \<le> blocks \<Longrightarrow>
     fold (\<lambda>x r. f r x)
       (map (\<lambda>index. reduce_loop f e ptr (mul32 index bs) (min (mul32 (index + 1) bs) sz)) [0..<k]) e
     = fold (\<lambda>x r. f r x) (take (min (k * bs) sz) ptr) e"
proof (induction k)
  case 0
  then show ?case by simp
next
  case (Suc k)
  then have kb: "k < blocks" "k \<le> blocks" by simp_all
  note bf = block_cover_facts[OF cover kb(1)]
  from cover have szlt: "sz < 2 ^ 32" by (simp add: block_cover_def)
  from cover kb(1) have lt: "k * bs + bs < 2 ^ 32" by (simp add: block_cover_def)
  let ?R = "\<lambda>xs. fold (\<lambda>x r. f r x) xs e"
  let ?g = "\<lambda>index. reduce_loop f e ptr (mul32 index bs) (min (mul32 (index + 1) bs) sz)"
  let ?s = "k * bs" and ?e = "min (k * bs + bs) sz"
  have m1: "mul32 (k + 1) bs = k * bs + bs" using lt by (intro trans[OF mul32_id]) simp_all
  have ms: "min ?s sz = ?s" using bf(3) by simp
  have me: "min (Suc k * bs) sz = ?e" by (simp add: add.commute)
  have elt: "?e < 2 ^ 32" using szlt by simp
  have ele: "?e \<le> length ptr" using len by simp
  have g: "?g k = ?R (take (?e - ?s) (drop ?s ptr))"
    unfolding bf(1) m1 by (rule reduce_loop_slice[OF bf(5) elt ele])
  have IH: "?R (map ?g [0..<k]) = ?R (take ?s ptr)" using Suc.IH[OF kb(2)] unfolding ms .
  have tk: "take ?e ptr = take ?s ptr @ take (?e - ?s) (drop ?s ptr)"
    using take_add[of ?s "?e - ?s" ptr] bf(5) by simp
  have "?R (map ?g [0..<Suc k]) = f (?R (map ?g [0..<k])) (?g k)" by simp
  also have "\<dots> = f (?R (take ?s ptr)) (?R (take (?e - ?s) (drop ?s ptr)))" unfolding IH g ..
  also have "\<dots> = fold (\<lambda>x r. f r x) (take (?e - ?s) (drop ?s ptr)) (?R (take ?s ptr))"
    by (rule fold_monoid[OF assoc idl idr, symmetric])
  also have "\<dots> = ?R (take ?e ptr)" unfolding tk by simp
  finally show ?case unfolding me .
qed

lemma jitc_reduce_fold:
  fixes ptr :: "'a::len word list"
  assumes create: "jitc_reduce_create F vt op = Inr (reduce_loop f e)"
      and assoc: "\<And>a b c. f (f a b) c = f a (f b c)"
      and idl: "\<And>a. f e a = a" and idr: "\<And>a. f a e = a"
      and pool: "pool_size > 1 \<longrightarrow> 2 \<le> bs \<and> sz + bs \<le> 2 ^ 32"
      and szlt: "sz < 2 ^ 32"
      and len: "sz \<le> length ptr"
  shows "jitc_reduce F pool_size bs vt op ptr sz = Some (Inr (fold (\<lambda>x r. f r x) (take sz ptr) e))"
  using pool szlt len
proof (induction sz arbitrary: ptr rule: less_induct)
  case (less sz)
  note pool = less.prems(1) and szlt = less.prems(2) and len = less.prems(3)
  define block_size where "block_size = (if pool_size > 1 then bs else sz)"
  define blocks where "blocks = (if pool_size > 1 then sub32 (add32 sz block_size) 1 div block_size else 1)"
  have nz: "\<not> (pool_size > 1 \<and> bs = 0)" using pool by auto
  let ?g = "\<lambda>index. reduce_loop f e ptr (mul32 index block_size) (min (mul32 (index + 1) block_size) sz)"
  let ?target = "map ?g [0..<max 1 blocks]"
  have unfold: "jitc_reduce F pool_size bs vt op ptr sz =
     (if blocks > 1 then jitc_reduce F pool_size bs vt op ?target blocks
      else Some (Inr (?target ! 0)))"
    unfolding blocks_def block_size_def
    by (rule trans[OF jitc_reduce.simps]) (use nz create in \<open>auto simp: Let_def\<close>)
  show ?case
  proof (cases "sz = 0")
    case True
    have b: "\<not> blocks > 1"
    proof (cases "pool_size > 1")
      case True
      with pool have bs: "2 \<le> bs" "bs \<le> 2 ^ 32" using \<open>sz = 0\<close> by auto
      have "sub32 (add32 0 bs) 1 div bs = 0"
      proof (cases "bs = 2 ^ 32")
        case True
        have "sub32 (add32 0 bs) 1 < 2 ^ 32" by (simp add: sub32_def)
        then show ?thesis unfolding True by simp
      next
        case False
        with bs have lt: "bs < 2 ^ 32" by simp
        then have "add32 0 bs = bs" by (simp add: add32_def)
        moreover have "sub32 bs 1 = bs - 1" using bs(1) lt by (intro sub32_id) simp_all
        ultimately show ?thesis using bs(1) by simp
      qed
      then show ?thesis using True \<open>sz = 0\<close> by (simp add: blocks_def block_size_def)
    next
      case False
      then show ?thesis by (simp add: blocks_def)
    qed
    have "?target ! 0 = ?g 0"
      using nth_map[of 0 "[0..<max 1 blocks]" ?g] by simp
    also have "\<dots> = e" using True by (simp add: reduce_loop_def mul32_def range32_def sub32_def)
    finally show ?thesis unfolding unfold using b True by simp
  next
    case False
    then have pos: "0 < sz" by simp
    note cover = blocks_cover[OF pos szlt pool, folded block_size_def, folded blocks_def]
    note bf = blocks_facts[OF pos szlt pool, folded block_size_def, folded blocks_def]
    have mx: "max 1 blocks = blocks" using bf(1) by simp
    have msz: "min (blocks * block_size) sz = sz" using cover by (simp add: block_cover_def)
    have all: "fold (\<lambda>x r. f r x) (map ?g [0..<blocks]) e = fold (\<lambda>x r. f r x) (take sz ptr) e"
      using blocks_fold[OF assoc idl idr cover len order_refl] unfolding msz .
    show ?thesis
    proof (cases "1 < blocks")
      case False
      with bf(1) have one: "blocks = 1" by simp
      have "?target ! 0 = fold (\<lambda>x r. f r x) (map ?g [0..<blocks]) e"
        unfolding mx one by (simp add: idl)
      then show ?thesis unfolding unfold all using False by simp
    next
      case True
      with bf(2) have r: "blocks < sz" "blocks + bs \<le> 2 ^ 32" by simp_all
      have p2: "pool_size > 1 \<longrightarrow> 2 \<le> bs \<and> blocks + bs \<le> 2 ^ 32" using pool r by simp
      have s2: "blocks < 2 ^ 32" using r(1) szlt by simp
      have l2: "blocks \<le> length ?target" unfolding mx by simp
      have "jitc_reduce F pool_size bs vt op ?target blocks =
              Some (Inr (fold (\<lambda>x r. f r x) (take blocks ?target) e))"
        by (rule less.IH[OF r(1) p2 s2 l2])
      also have "take blocks ?target = map ?g [0..<blocks]" unfolding mx by simp
      finally show ?thesis unfolding unfold all using True by simp
    qed
  qed
qed

lemma fill_fold:
  "length (fold (\<lambda>k m. m[p + k := v]) [0..<n] m) = length m
   \<and> (\<forall>j < length m. fold (\<lambda>k m. m[p + k := v]) [0..<n] m ! j =
          (if p \<le> j \<and> j < p + n then v else m ! j))"
proof (induction n)
  case 0
  then show ?case by auto
next
  case (Suc n)
  let ?m = "fold (\<lambda>k m. m[p + k := v]) [0..<n] m"
  from Suc have l: "length ?m = length m"
    and v: "\<And>j. j < length m \<Longrightarrow> ?m ! j = (if p \<le> j \<and> j < p + n then v else m ! j)"
    by blast+
  have e: "fold (\<lambda>k m. m[p + k := v]) [0..<Suc n] m = ?m[p + n := v]" by simp
  have "(?m[p + n := v]) ! j = (if p \<le> j \<and> j < p + Suc n then v else m ! j)"
    if j: "j < length m" for j
  proof (cases "j = p + n")
    case True
    then show ?thesis using j l by simp
  next
    case False
    then have "(?m[p + n := v]) ! j = ?m ! j" by simp
    then show ?thesis using v[OF j] False by auto
  qed
  then show ?case unfolding e using l by simp
qed

lemma fill_fold_eq:
  assumes "p + n \<le> length m"
  shows "fold (\<lambda>k m. m[p + k := v]) [0..<n] m = take p m @ replicate n v @ drop (p + n) m"
proof (rule nth_equalityI)
  show "length (fold (\<lambda>k m. m[p + k := v]) [0..<n] m) = length (take p m @ replicate n v @ drop (p + n) m)"
    using assms fill_fold[of p v n m] by simp
next
  fix j assume "j < length (fold (\<lambda>k m. m[p + k := v]) [0..<n] m)"
  then have j: "j < length m" using fill_fold[of p v n m] by simp
  then have "fold (\<lambda>k m. m[p + k := v]) [0..<n] m ! j = (if p \<le> j \<and> j < p + n then v else m ! j)"
    using fill_fold[of p v n m] by blast
  also have "\<dots> = (take p m @ replicate n v @ drop (p + n) m) ! j"
    using assms j by (auto simp: nth_append)
  finally show "fold (\<lambda>k m. m[p + k := v]) [0..<n] m ! j = (take p m @ replicate n v @ drop (p + n) m) ! j" .
qed

lemma LLVM_jitc_memset_async_bytes:
  assumes "p + n \<le> length m"
  shows "LLVM_jitc_memset_async m p n 1 [v] = Inr (take p m @ replicate n v @ drop (p + n) m)"
  unfolding LLVM_jitc_memset_async_def using fill_fold_eq[OF assms, of v] by simp

lemma store_uint32_nth: "k < 4 \<Longrightarrow> store_uint32 w ! k = ucast (drop_bit (8 * k) w)"
  by (simp add: store_uint32_def)

lemma byte_and:
  "(ucast (drop_bit n (a AND b :: 32 word)) :: 8 word) = ucast (drop_bit n a) AND ucast (drop_bit n b)"
  by (rule bit_word_eqI) (auto simp: bit_simps)

lemma byte_or:
  "(ucast (drop_bit n (a OR b :: 32 word)) :: 8 word) = ucast (drop_bit n a) OR ucast (drop_bit n b)"
  by (rule bit_word_eqI) (auto simp: bit_simps)

lemma byte_ones: "k < 4 \<Longrightarrow> (ucast (drop_bit (8 * k) (- 1 :: 32 word)) :: 8 word) = - 1"
  by (rule bit_word_eqI) (auto simp: bit_simps)

lemma byte_zero: "(ucast (drop_bit n (0 :: 32 word)) :: 8 word) = 0"
  by simp

lemma byte_of_bytes:
  fixes a b c d :: "8 word"
  defines "w \<equiv> (ucast a OR push_bit 8 (ucast b) OR push_bit 16 (ucast c) OR push_bit 24 (ucast d) :: 32 word)"
  shows "(ucast (drop_bit 0 w) :: 8 word) = a"
    and "(ucast (drop_bit 8 w) :: 8 word) = b"
    and "(ucast (drop_bit 16 w) :: 8 word) = c"
    and "(ucast (drop_bit 24 w) :: 8 word) = d"
  unfolding w_def by (rule bit_word_eqI; auto simp: bit_simps dest: bit_imp_le_length)+

lemma byte_load_uint32:
  assumes "k < 4"
  shows "(ucast (drop_bit (8 * k) (load_uint32 mem i)) :: 8 word) = mem ! (4 * i + k)"
proof -
  from assms have "k = 0 \<or> k = 1 \<or> k = 2 \<or> k = 3" by arith
  then show ?thesis
    unfolding load_uint32_def using byte_of_bytes[of "mem ! (4 * i)" "mem ! (4 * i + 1)" "mem ! (4 * i + 2)" "mem ! (4 * i + 3)"]
    by (elim disjE) simp_all
qed

lemma byte_fold_and:
  "(ucast (drop_bit n (fold (\<lambda>x r. r AND x) ws (a :: 32 word))) :: 8 word) =
     fold (\<lambda>x r. r AND x) (map (\<lambda>w. ucast (drop_bit n w)) ws) (ucast (drop_bit n a))"
proof (induction ws arbitrary: a)
  case Nil
  then show ?case by simp
next
  case (Cons x ws)
  have "ucast (drop_bit n (fold (\<lambda>x r. r AND x) (x # ws) a)) =
        fold (\<lambda>x r. r AND x) (map (\<lambda>w. ucast (drop_bit n w)) ws) (ucast (drop_bit n (a AND x)) :: 8 word)"
    using Cons[of "a AND x"] by simp
  then show ?case unfolding byte_and by simp
qed

lemma byte_fold_or:
  "(ucast (drop_bit n (fold (\<lambda>x r. r OR x) ws (a :: 32 word))) :: 8 word) =
     fold (\<lambda>x r. r OR x) (map (\<lambda>w. ucast (drop_bit n w)) ws) (ucast (drop_bit n a))"
proof (induction ws arbitrary: a)
  case Nil
  then show ?case by simp
next
  case (Cons x ws)
  have "ucast (drop_bit n (fold (\<lambda>x r. r OR x) (x # ws) a)) =
        fold (\<lambda>x r. r OR x) (map (\<lambda>w. ucast (drop_bit n w)) ws) (ucast (drop_bit n (a OR x)) :: 8 word)"
    using Cons[of "a OR x"] by simp
  then show ?case unfolding byte_or by simp
qed

lemma and_fold_01:
  fixes xs :: "8 word list"
  shows "\<forall>x\<in>set xs. x = 0 \<or> x = 1 \<Longrightarrow>
     fold (\<lambda>x r. r AND x) xs (- 1) = (if xs = [] then - 1 else if \<forall>x\<in>set xs. x = 1 then 1 else 0)"
proof (induction xs rule: rev_induct)
  case Nil
  then show ?case by simp
next
  case (snoc x xs)
  then have x: "x = 0 \<or> x = 1" and IH: "fold (\<lambda>x r. r AND x) xs (- 1) =
      (if xs = [] then - 1 else if \<forall>x\<in>set xs. x = 1 then 1 else 0)" by simp_all
  show ?case using x by (auto simp: IH)
qed

lemma or_fold_0:
  fixes xs :: "8 word list"
  shows "fold (\<lambda>x r. r OR x) xs 0 = 0 \<longleftrightarrow> (\<forall>x\<in>set xs. x = 0)"
  by (induction xs rule: rev_induct) (auto simp: or_eq_0_iff)

lemma column:
  assumes k: "k < 4" and n: "4 * n \<le> length mem"
  shows "map (\<lambda>w. ucast (drop_bit (8 * k) w) :: 8 word) (take n (as_uint32 mem)) =
           map (\<lambda>i. mem ! (4 * i + k)) [0..<n]"
proof -
  from n have "n \<le> length mem div 4" by simp
  then have "take n (as_uint32 mem) = map (load_uint32 mem) [0..<n]"
    unfolding as_uint32_def by (simp add: take_map)
  then show ?thesis by (simp add: byte_load_uint32[OF k])
qed

lemma quad_index:
  "(\<forall>k<4. \<forall>i<n. P (4 * i + k)) \<longleftrightarrow> (\<forall>j<4 * n. P (j::nat))"
proof
  assume a: "\<forall>k<4. \<forall>i<n. P (4 * i + k)"
  show "\<forall>j<4 * n. P j"
  proof (intro allI impI)
    fix j assume "j < 4 * n"
    then have "j mod 4 < 4" "j div 4 < n" by simp_all
    with a have "P (4 * (j div 4) + j mod 4)" by blast
    then show "P j" by simp
  qed
next
  assume a: "\<forall>j<4 * n. P j"
  show "\<forall>k<4. \<forall>i<n. P (4 * i + k)"
  proof (intro allI impI)
    fix k i :: nat assume "k < 4" "i < n"
    then have "4 * i + k < 4 * n" by simp
    with a show "P (4 * i + k)" by blast
  qed
qed

lemma reduced_size_facts:
  assumes "sz + 3 < 2 ^ 32"
  shows "add32 sz 3 div 4 = (sz + 3) div 4"
    and "sub32 (mul32 ((sz + 3) div 4) 4) sz = 4 * ((sz + 3) div 4) - sz"
    and "sz \<le> 4 * ((sz + 3) div 4)"
    and "4 * ((sz + 3) div 4) - sz \<le> 3"
    and "(sz + 3) div 4 < 2 ^ 32"
    and "(sz + 3) div 4 = 0 \<longleftrightarrow> sz = 0"
proof -
  let ?n = "(sz + 3) div 4"
  show "add32 sz 3 div 4 = ?n" using assms by (simp add: add32_id)
  have le: "?n * 4 \<le> sz + 3" by simp
  then have lt: "?n * 4 < 2 ^ 32" using assms by simp
  show ge: "sz \<le> 4 * ?n" by arith
  have "mul32 ?n 4 = ?n * 4" using lt by (rule mul32_id)
  moreover have "sub32 (?n * 4) sz = ?n * 4 - sz" using ge lt by (intro sub32_id) simp_all
  ultimately show "sub32 (mul32 ?n 4) sz = 4 * ?n - sz" by (simp add: mult.commute)
  show "4 * ?n - sz \<le> 3" by arith
  show "?n < 2 ^ 32" using assms by simp
  show "?n = 0 \<longleftrightarrow> sz = 0" by arith
qed

lemma padded_facts:
  assumes "sz \<le> m" "m \<le> length values"
  shows "length (take sz values @ replicate (m - sz) v @ drop m values) = length values"
    and "\<And>j. j < sz \<Longrightarrow> (take sz values @ replicate (m - sz) v @ drop m values) ! j = values ! j"
    and "\<And>j. sz \<le> j \<Longrightarrow> j < m \<Longrightarrow> (take sz values @ replicate (m - sz) v @ drop m values) ! j = v"
  using assms by (auto simp: nth_append)

lemma jitc_all_run:
  assumes szlt: "sz + 3 < 2 ^ 32"
      and pool: "pool_size > 1 \<longrightarrow> 2 \<le> bs \<and> (sz + 3) div 4 + bs \<le> 2 ^ 32"
      and cap: "4 * ((sz + 3) div 4) \<le> length values"
  defines "n \<equiv> (sz + 3) div 4"
  defines "padded \<equiv> take sz values @ replicate (4 * n - sz) 1 @ drop (4 * n) values"
  defines "out \<equiv> store_uint32 (fold (\<lambda>x r. r AND x) (take n (as_uint32 padded)) (- 1))"
  shows "jitc_all F pool_size bs values sz =
           Some (Inr ((out ! 0 AND out ! 1 AND out ! 2 AND out ! 3) \<noteq> 0, padded))"
proof -
  note rf = reduced_size_facts[OF szlt, folded n_def]
  have lp: "length padded = length values"
    unfolding padded_def using padded_facts(1)[OF rf(3) cap[folded n_def]] .
  have ms: "(if 4 * n - sz \<noteq> 0 then LLVM_jitc_memset_async values sz (4 * n - sz) 1 [1]
             else Inr values) = Inr padded"
  proof (cases "4 * n - sz = 0")
    case True
    with rf(3) have "4 * n = sz" by simp
    then show ?thesis using True by (simp add: padded_def)
  next
    case False
    have "sz + (4 * n - sz) \<le> length values" using rf(3) cap[folded n_def] by simp
    from LLVM_jitc_memset_async_bytes[OF this, of 1] rf(3) False
    show ?thesis by (simp add: padded_def)
  qed
  have create: "jitc_reduce_create F UInt32 Op_And = Inr (reduce_loop (AND) (- 1))"
    by (simp add: jitc_reduce_create_T_def)
  have ln: "n \<le> length (as_uint32 padded)"
    unfolding as_uint32_def using cap[folded n_def] lp by simp
  have red: "jitc_reduce F pool_size bs UInt32 Op_And (as_uint32 padded) n =
        Some (Inr (fold (\<lambda>x r. r AND x) (take n (as_uint32 padded)) (- 1)))"
    by (rule jitc_reduce_fold[OF create _ _ _ pool[folded n_def] rf(5) ln])
       (simp_all add: and.assoc)
  show ?thesis
    unfolding jitc_all_def Let_def rf(1) rf(2) ms out_def by (simp add: red)
qed

lemma jitc_any_run:
  assumes szlt: "sz + 3 < 2 ^ 32"
      and pool: "pool_size > 1 \<longrightarrow> 2 \<le> bs \<and> (sz + 3) div 4 + bs \<le> 2 ^ 32"
      and cap: "4 * ((sz + 3) div 4) \<le> length values"
  defines "n \<equiv> (sz + 3) div 4"
  defines "padded \<equiv> take sz values @ replicate (4 * n - sz) 0 @ drop (4 * n) values"
  defines "out \<equiv> store_uint32 (fold (\<lambda>x r. r OR x) (take n (as_uint32 padded)) 0)"
  shows "jitc_any F pool_size bs values sz =
           Some (Inr ((out ! 0 OR out ! 1 OR out ! 2 OR out ! 3) \<noteq> 0, padded))"
proof -
  note rf = reduced_size_facts[OF szlt, folded n_def]
  have lp: "length padded = length values"
    unfolding padded_def using padded_facts(1)[OF rf(3) cap[folded n_def]] .
  have ms: "(if 4 * n - sz \<noteq> 0 then LLVM_jitc_memset_async values sz (4 * n - sz) 1 [0]
             else Inr values) = Inr padded"
  proof (cases "4 * n - sz = 0")
    case True
    with rf(3) have "4 * n = sz" by simp
    then show ?thesis using True by (simp add: padded_def)
  next
    case False
    have "sz + (4 * n - sz) \<le> length values" using rf(3) cap[folded n_def] by simp
    from LLVM_jitc_memset_async_bytes[OF this, of 0] rf(3) False
    show ?thesis by (simp add: padded_def)
  qed
  have create: "jitc_reduce_create F UInt32 Op_Or = Inr (reduce_loop (OR) 0)"
    by (simp add: jitc_reduce_create_T_def)
  have ln: "n \<le> length (as_uint32 padded)"
    unfolding as_uint32_def using cap[folded n_def] lp by simp
  have red: "jitc_reduce F pool_size bs UInt32 Op_Or (as_uint32 padded) n =
        Some (Inr (fold (\<lambda>x r. r OR x) (take n (as_uint32 padded)) 0))"
    by (rule jitc_reduce_fold[OF create _ _ _ pool[folded n_def] rf(5) ln])
       (simp_all add: or.assoc)
  show ?thesis
    unfolding jitc_any_def Let_def rf(1) rf(2) ms out_def by (simp add: red)
qed

lemma less_4_cases: "(\<forall>k<4. P (k::nat)) \<longleftrightarrow> P 0 \<and> P 1 \<and> P 2 \<and> P 3"
proof
  assume "\<forall>k<4. P k"
  then show "P 0 \<and> P 1 \<and> P 2 \<and> P 3" by simp
next
  assume a: "P 0 \<and> P 1 \<and> P 2 \<and> P 3"
  show "\<forall>k<4. P k"
  proof (intro allI impI)
    fix k :: nat assume "k < 4"
    then have "k = 0 \<or> k = 1 \<or> k = 2 \<or> k = 3" by arith
    with a show "P k" by auto
  qed
qed

lemma all_bytes_iff:
  assumes szlt: "sz + 3 < 2 ^ 32"
      and cap: "4 * ((sz + 3) div 4) \<le> length values"
      and bytes: "\<forall>i < sz. values ! i = 0 \<or> values ! i = 1"
  defines "n \<equiv> (sz + 3) div 4"
  defines "padded \<equiv> take sz values @ replicate (4 * n - sz) 1 @ drop (4 * n) values"
  defines "out \<equiv> store_uint32 (fold (\<lambda>x r. r AND x) (take n (as_uint32 padded)) (- 1))"
  shows "(out ! 0 AND out ! 1 AND out ! 2 AND out ! 3) \<noteq> 0 \<longleftrightarrow> (\<forall>i < sz. values ! i \<noteq> 0)"
proof -
  note rf = reduced_size_facts[OF szlt, folded n_def]
  note pf = padded_facts[OF rf(3) cap[folded n_def], where v = 1, folded padded_def]
  have cap': "4 * n \<le> length padded" using cap[folded n_def] pf(1) by simp
  have p01: "padded ! j = 0 \<or> padded ! j = 1" if "j < 4 * n" for j
  proof (cases "j < sz")
    case True
    then show ?thesis using pf(2)[of j] bytes by simp
  next
    case False
    then show ?thesis using pf(3)[of j] that by simp
  qed
  define c where "c k = (\<forall>i<n. padded ! (4 * i + k) = 1)" for k
  have B: "out ! k = (if n = 0 then - 1 else if c k then 1 else 0)" if k: "k < 4" for k
  proof -
    have col01: "\<forall>x\<in>set (map (\<lambda>i. padded ! (4 * i + k)) [0..<n]). x = 0 \<or> x = 1"
    proof
      fix x assume "x \<in> set (map (\<lambda>i. padded ! (4 * i + k)) [0..<n])"
      then obtain i where i: "i < n" "x = padded ! (4 * i + k)" by auto
      from i(1) k have "4 * i + k < 4 * n" by simp
      from p01[OF this] show "x = 0 \<or> x = 1" unfolding i(2) .
    qed
    have "out ! k = fold (\<lambda>x r. r AND x) (map (\<lambda>i. padded ! (4 * i + k)) [0..<n]) (- 1)"
      unfolding out_def store_uint32_nth[OF k] byte_fold_and byte_ones[OF k] column[OF k cap'] ..
    also have "\<dots> = (if map (\<lambda>i. padded ! (4 * i + k)) [0..<n] = [] then - 1
                     else if \<forall>x\<in>set (map (\<lambda>i. padded ! (4 * i + k)) [0..<n]). x = 1 then 1 else 0)"
      by (rule and_fold_01[OF col01])
    also have "\<dots> = (if n = 0 then - 1 else if c k then 1 else 0)"
      by (auto simp: c_def)
    finally show ?thesis .
  qed
  show ?thesis
  proof (cases "n = 0")
    case True
    with rf(6) have "sz = 0" by simp
    moreover have "out ! 0 = - 1" "out ! 1 = - 1" "out ! 2 = - 1" "out ! 3 = - 1"
      using B True by simp_all
    ultimately show ?thesis by simp
  next
    case False
    have o: "out ! 0 = (if c 0 then 1 else 0)" "out ! 1 = (if c 1 then 1 else 0)"
            "out ! 2 = (if c 2 then 1 else 0)" "out ! 3 = (if c 3 then 1 else 0)"
      using B False by simp_all
    have "(out ! 0 AND out ! 1 AND out ! 2 AND out ! 3) \<noteq> 0 \<longleftrightarrow> c 0 \<and> c 1 \<and> c 2 \<and> c 3"
      unfolding o by simp
    also have "\<dots> \<longleftrightarrow> (\<forall>k<4. c k)" by (rule less_4_cases[symmetric])
    also have "\<dots> \<longleftrightarrow> (\<forall>j<4 * n. padded ! j = 1)"
      unfolding c_def by (rule quad_index)
    also have "\<dots> \<longleftrightarrow> (\<forall>i < sz. values ! i \<noteq> 0)"
    proof
      assume a: "\<forall>j<4 * n. padded ! j = 1"
      show "\<forall>i < sz. values ! i \<noteq> 0"
      proof (intro allI impI)
        fix i assume i: "i < sz"
        with rf(3) have "i < 4 * n" by simp
        with a have "padded ! i = 1" by blast
        then show "values ! i \<noteq> 0" using pf(2)[OF i] by simp
      qed
    next
      assume a: "\<forall>i < sz. values ! i \<noteq> 0"
      show "\<forall>j<4 * n. padded ! j = 1"
      proof (intro allI impI)
        fix j assume j: "j < 4 * n"
        show "padded ! j = 1"
        proof (cases "j < sz")
          case True
          with a bytes have "values ! j = 1" by blast
          then show ?thesis using pf(2)[OF True] by simp
        next
          case False
          then show ?thesis using pf(3)[of j] j by simp
        qed
      qed
    qed
    finally show ?thesis .
  qed
qed

lemma any_bytes_iff:
  assumes szlt: "sz + 3 < 2 ^ 32"
      and cap: "4 * ((sz + 3) div 4) \<le> length values"
  defines "n \<equiv> (sz + 3) div 4"
  defines "padded \<equiv> take sz values @ replicate (4 * n - sz) 0 @ drop (4 * n) values"
  defines "out \<equiv> store_uint32 (fold (\<lambda>x r. r OR x) (take n (as_uint32 padded)) 0)"
  shows "(out ! 0 OR out ! 1 OR out ! 2 OR out ! 3) \<noteq> 0 \<longleftrightarrow> (\<exists>i < sz. values ! i \<noteq> 0)"
proof -
  note rf = reduced_size_facts[OF szlt, folded n_def]
  note pf = padded_facts[OF rf(3) cap[folded n_def], where v = 0, folded padded_def]
  have cap': "4 * n \<le> length padded" using cap[folded n_def] pf(1) by simp
  define c where "c k = (\<forall>i<n. padded ! (4 * i + k) = 0)" for k
  have B: "out ! k = 0 \<longleftrightarrow> c k" if k: "k < 4" for k
  proof -
    have "out ! k = fold (\<lambda>x r. r OR x) (map (\<lambda>i. padded ! (4 * i + k)) [0..<n]) 0"
      unfolding out_def store_uint32_nth[OF k] byte_fold_or byte_zero column[OF k cap'] ..
    then show ?thesis unfolding c_def by (auto simp: or_fold_0)
  qed
  have "(out ! 0 OR out ! 1 OR out ! 2 OR out ! 3) = 0 \<longleftrightarrow> c 0 \<and> c 1 \<and> c 2 \<and> c 3"
    using B[of 0] B[of 1] B[of 2] B[of 3] by (simp add: or_eq_0_iff)
  also have "\<dots> \<longleftrightarrow> (\<forall>k<4. c k)" by (rule less_4_cases[symmetric])
  also have "\<dots> \<longleftrightarrow> (\<forall>j<4 * n. padded ! j = 0)"
    unfolding c_def by (rule quad_index)
  also have "\<dots> \<longleftrightarrow> (\<forall>i < sz. values ! i = 0)"
  proof
    assume a: "\<forall>j<4 * n. padded ! j = 0"
    show "\<forall>i < sz. values ! i = 0"
    proof (intro allI impI)
      fix i assume i: "i < sz"
      with rf(3) have "i < 4 * n" by simp
      with a have "padded ! i = 0" by blast
      then show "values ! i = 0" using pf(2)[OF i] by simp
    qed
  next
    assume a: "\<forall>i < sz. values ! i = 0"
    show "\<forall>j<4 * n. padded ! j = 0"
    proof (intro allI impI)
      fix j assume j: "j < 4 * n"
      show "padded ! j = 0"
      proof (cases "j < sz")
        case True
        with a have "values ! j = 0" by blast
        then show ?thesis using pf(2)[OF True] by simp
      next
        case False
        then show ?thesis using pf(3)[of j] j by simp
      qed
    qed
  qed
  finally show ?thesis by blast
qed

text \<open>
  The boolean reductions within the range of sizes \<open>n + 3 < 2^32\<close>. For a byte array of
  length \<open>n\<close> in an allocation that has room for the next multiple of four bytes,
  \<^verbatim>\<open>jitc_all\<close> (resp. \<^verbatim>\<open>jitc_any\<close>) fills the at most three bytes after the array with 1
  (resp. 0), reduces the \<open>(n + 3) div 4\<close> 32-bit words of the padded array with \<open>AND\<close> from
  all-ones (resp. \<open>OR\<close> from zero), and returns whether the \<open>AND\<close> (resp. \<open>OR\<close>) of the four
  bytes of the result is non-zero. For a boolean array (bytes 0 and 1) \<^verbatim>\<open>jitc_all\<close>
  returns whether every byte is non-zero, and \<^verbatim>\<open>jitc_any\<close> returns whether some byte is
  non-zero.
\<close>

theorem jitc_all_any_correct:
  assumes szlt: "sz + 3 < 2 ^ 32"
      and pool: "pool_size > 1 \<longrightarrow> 2 \<le> llvm_block_size \<and> (sz + 3) div 4 + llvm_block_size \<le> 2 ^ 32"
      and cap: "4 * ((sz + 3) div 4) \<le> length values"
  shows "let n = (sz + 3) div 4;
             pad = (\<lambda>v. take sz values @ replicate (4 * n - sz) v @ drop (4 * n) values);
             out_all = store_uint32 (fold (\<lambda>x r. r AND x) (take n (as_uint32 (pad 1))) (- 1));
             out_any = store_uint32 (fold (\<lambda>x r. r OR x) (take n (as_uint32 (pad 0))) 0)
         in 4 * n - sz \<le> 3
          \<and> jitc_all F pool_size llvm_block_size values sz =
              Some (Inr ((out_all ! 0 AND out_all ! 1 AND out_all ! 2 AND out_all ! 3) \<noteq> 0, pad 1))
          \<and> jitc_any F pool_size llvm_block_size values sz =
              Some (Inr ((out_any ! 0 OR out_any ! 1 OR out_any ! 2 OR out_any ! 3) \<noteq> 0, pad 0))
          \<and> ((\<forall>i < sz. values ! i = 0 \<or> values ! i = 1) \<longrightarrow>
                jitc_all F pool_size llvm_block_size values sz =
                  Some (Inr (\<forall>i < sz. values ! i \<noteq> 0, pad 1)))
          \<and> jitc_any F pool_size llvm_block_size values sz =
              Some (Inr (\<exists>i < sz. values ! i \<noteq> 0, pad 0))"
proof -
  note A = jitc_all_run[OF szlt pool cap, of F]
  note B = jitc_any_run[OF szlt pool cap, of F]
  note C = any_bytes_iff[OF szlt cap]
  have D: "(\<forall>i < sz. values ! i = 0 \<or> values ! i = 1) \<longrightarrow>
           jitc_all F pool_size llvm_block_size values sz =
             Some (Inr (\<forall>i < sz. values ! i \<noteq> 0,
                        take sz values @ replicate (4 * ((sz + 3) div 4) - sz) 1
                          @ drop (4 * ((sz + 3) div 4)) values))"
  proof
    assume "\<forall>i < sz. values ! i = 0 \<or> values ! i = 1"
    from all_bytes_iff[OF szlt cap this] show "jitc_all F pool_size llvm_block_size values sz =
             Some (Inr (\<forall>i < sz. values ! i \<noteq> 0,
                        take sz values @ replicate (4 * ((sz + 3) div 4) - sz) 1
                          @ drop (4 * ((sz + 3) div 4)) values))"
      unfolding A by simp
  qed
  have E: "jitc_any F pool_size llvm_block_size values sz =
             Some (Inr (\<exists>i < sz. values ! i \<noteq> 0,
                        take sz values @ replicate (4 * ((sz + 3) div 4) - sz) 0
                          @ drop (4 * ((sz + 3) div 4)) values))"
    unfolding B using C by simp
  show ?thesis
    unfolding Let_def
    by (intro conjI reduced_size_facts(4)[OF szlt] A B D E)
qed

theorem jitc_all_any_correct_witness:
  "(5::nat) + 3 < 2 ^ 32 \<and> (2::nat) \<le> 2 \<and> 4 * ((5 + 3) div 4) \<le> length [1, 1, 1, 1, 1, 9, 9, 9 :: 8 word]
   \<and> jitc_all fpu0 2 2 [1, 1, 1, 1, 1, 9, 9, 9] 5 = Some (Inr (True, [1, 1, 1, 1, 1, 1, 1, 1]))
   \<and> jitc_any fpu0 2 2 [1, 1, 1, 1, 1, 9, 9, 9] 5 = Some (Inr (True, [1, 1, 1, 1, 1, 0, 0, 0]))"
proof -
  let ?v = "[1, 1, 1, 1, 1, 9, 9, 9 :: 8 word]"
  have szlt: "(5::nat) + 3 < 2 ^ 32" by simp
  have pool: "(2::nat) > 1 \<longrightarrow> 2 \<le> (2::nat) \<and> ((5::nat) + 3) div 4 + 2 \<le> 2 ^ 32" by simp
  have cap: "4 * ((5 + 3) div 4) \<le> length ?v" by simp
  have cases5: "i = 0 \<or> i = 1 \<or> i = 2 \<or> i = 3 \<or> i = 4" if "i < 5" for i :: nat
    using that by arith
  have bytes: "\<forall>i < 5. ?v ! i = 0 \<or> ?v ! i = 1"
  proof (intro allI impI)
    fix i :: nat assume "i < 5"
    from cases5[OF this] show "?v ! i = 0 \<or> ?v ! i = 1" by (auto simp: eval_nat_numeral)
  qed
  have allt: "(\<forall>i < 5. ?v ! i \<noteq> 0) = True"
  proof -
    have "\<forall>i < 5. ?v ! i \<noteq> 0"
    proof (intro allI impI)
      fix i :: nat assume "i < 5"
      from cases5[OF this] show "?v ! i \<noteq> 0" by (auto simp: eval_nat_numeral)
    qed
    then show ?thesis by simp
  qed
  have anyt: "(\<exists>i < 5. ?v ! i \<noteq> 0) = True"
  proof -
    have "(0::nat) < 5 \<and> ?v ! 0 \<noteq> 0" by simp
    then have "\<exists>i < 5. ?v ! i \<noteq> 0" by blast
    then show ?thesis by simp
  qed
  have n: "((5::nat) + 3) div 4 = 2" by simp
  note T = jitc_all_any_correct[OF szlt pool cap, of fpu0, unfolded Let_def]
  have a: "jitc_all fpu0 2 2 ?v 5 = Some (Inr (True, [1, 1, 1, 1, 1, 1, 1, 1]))"
    using T[THEN conjunct2, THEN conjunct2, THEN conjunct2, THEN conjunct1, THEN mp, OF bytes]
    unfolding allt n by (simp add: eval_nat_numeral)
  have b: "jitc_any fpu0 2 2 ?v 5 = Some (Inr (True, [1, 1, 1, 1, 1, 0, 0, 0]))"
    using T[THEN conjunct2, THEN conjunct2, THEN conjunct2, THEN conjunct2]
    unfolding anyt n by (simp add: eval_nat_numeral)
  have h: "(5::nat) + 3 < 2 ^ 32 \<and> (2::nat) \<le> 2 \<and> 4 * ((5 + 3) div 4) \<le> length ?v" by simp
  from h a b show ?thesis by blast
qed

subsection \<open>Empty inputs and unsupported types of the primitives\<close>

lemma jitc_reduce_create_unsupported_type:
  "vt \<in> {Void, Bool, Pointer} \<Longrightarrow>
     jitc_reduce_create F vt op = Inl (Raise ''jit_reduce_create(): unsupported data type!'')"
  by auto

lemma jitc_reduce_create_unsupported_op:
  "vt \<notin> {Void, Bool, Pointer} \<Longrightarrow> op \<in> {Op_None, Op_Count} \<Longrightarrow>
     jitc_reduce_create F vt op = Inl (Raise ''jit_reduce_create(): unsupported reduction type!'')"
  by (cases vt) (auto simp: jitc_reduce_create_T_def)

lemma jitc_reduce_create_fault:
  assumes "jitc_reduce_create F vt op = Inl e" "\<not> (pool_size > 1 \<and> bs = 0)"
  shows "jitc_reduce F pool_size bs vt op ptr sz = Some (Inl e)"
  by (rule trans[OF jitc_reduce.simps]) (use assms in \<open>auto simp: Let_def\<close>)

lemma jitc_reduce_empty:
  assumes pool: "pool_size > 1 \<longrightarrow> 0 < bs \<and> bs \<le> 2 ^ 32"
  shows "jitc_reduce F pool_size bs vt op ptr 0 =
           Some (case jitc_reduce_create F vt op of Inl e \<Rightarrow> Inl e | Inr red \<Rightarrow> Inr (red ptr 0 0))"
proof -
  have nz: "\<not> (pool_size > 1 \<and> bs = 0)" using pool by auto
  have d: "pool_size > 1 \<Longrightarrow> sub32 (add32 0 bs) 1 div bs = 0"
  proof -
    assume "pool_size > 1"
    with pool have bs: "0 < bs" "bs \<le> 2 ^ 32" by auto
    show ?thesis
    proof (cases "bs = 2 ^ 32")
      case True
      have "sub32 (add32 0 bs) 1 < 2 ^ 32" by (simp add: sub32_def)
      then show ?thesis unfolding True by simp
    next
      case False
      with bs have lt: "bs < 2 ^ 32" by simp
      then have "add32 0 bs = bs" by (simp add: add32_def)
      moreover have "sub32 bs 1 = bs - 1" using bs(1) lt by (intro sub32_id) simp_all
      ultimately show ?thesis using bs(1) by simp
    qed
  qed
  have m: "mul32 0 x = 0" for x by (simp add: mul32_def)
  show ?thesis
  proof (cases "jitc_reduce_create F vt op")
    case (Inl e)
    from jitc_reduce_create_fault[OF Inl nz] show ?thesis using Inl by simp
  next
    case (Inr red)
    show ?thesis
      by (rule trans[OF jitc_reduce.simps]) (use Inr nz d in \<open>auto simp: Let_def m\<close>)
  qed
qed

lemma jitc_block_copy_create_unsupported:
  "vt \<notin> {UInt8, UInt16, UInt32, UInt64, Float32, Float64} \<Longrightarrow>
     jitc_block_copy_create vt = Inl (Raise ''jit_block_copy_create(): unsupported data type!'')"
  by (cases vt) auto

lemma jitc_block_sum_create_unsupported:
  "vt \<notin> {UInt8, UInt16, UInt32, UInt64, Float32, Float64} \<Longrightarrow>
     jitc_block_sum_create F vt = Inl (Raise ''jit_block_sum_create(): unsupported data type!'')"
  by (cases vt) auto

lemma jitc_block_copy_unsupported:
  assumes "2 \<le> block_size" "\<not> (pool_size > 1 \<and> bs = 0)"
      and "make_int_type_unsigned vt \<notin> {UInt8, UInt16, UInt32, UInt64, Float32, Float64}"
  shows "jitc_block_copy pool_size bs vt inp out sz block_size =
           Inl (Raise ''jit_block_copy_create(): unsupported data type!'')"
  unfolding jitc_block_copy_def Let_def jitc_block_copy_create_unsupported[OF assms(3)]
  using assms(1,2) by auto

lemma jitc_block_sum_unsupported:
  assumes "2 \<le> block_size" "\<not> (pool_size > 1 \<and> bs = 0)"
      and "make_int_type_unsigned vt \<notin> {UInt8, UInt16, UInt32, UInt64, Float32, Float64}"
  shows "jitc_block_sum F pool_size bs vt inp out sz block_size =
           Inl (Raise ''jit_block_sum_create(): unsupported data type!'')"
  unfolding jitc_block_sum_def Let_def jitc_block_sum_create_unsupported[OF assms(3)]
  using assms(1,2) by auto

lemma jitc_prefix_sum_empty:
  "jitc_prefix_sum F pool_size bs vt ex inp 0 out mem = Some (Inr mem)"
  by (subst jitc_prefix_sum.simps) simp

lemma jitc_compress_empty:
  "jitc_compress F pool_size bs inp 0 out = Some (Inr (0, out))"
  by (simp add: jitc_compress_def)

lemma jitc_mkperm_empty:
  "jitc_mkperm pool_size bs ptr 0 bucket_count s = (Inr 0, s)"
  by (simp add: jitc_mkperm_def split: prod.splits)

lemma jitc_mkperm_no_buckets:
  "sz \<noteq> 0 \<Longrightarrow> jitc_mkperm pool_size bs ptr sz 0 s =
     (Inl (Fail ''jit_mkperm(): bucket_count cannot be zero!''), s)"
  by (simp add: jitc_mkperm_def split: prod.splits)

text \<open>
  Calls with no elements are not rejected: \<^verbatim>\<open>jitc_prefix_sum\<close> (also for a type it does not
  support), \<^verbatim>\<open>jitc_compress\<close> and \<^verbatim>\<open>jitc_mkperm\<close> return at once, and \<^verbatim>\<open>jitc_reduce\<close>
  returns the neutral element of the sum.
\<close>

theorem zero_size_not_rejected:
  "jitc_prefix_sum fpu0 2 2 UInt32 True 0 0 0 [7] = Some (Inr [7])
   \<and> jitc_prefix_sum fpu0 2 2 Bool True 0 0 0 [7] = Some (Inr [7])
   \<and> jitc_compress fpu0 2 2 [] 0 [7] = Some (Inr (0, [7]))
   \<and> jitc_mkperm 2 2 [] 0 4 ([7], None) = (Inr 0, [7], None)
   \<and> jitc_reduce fpu0 2 2 UInt32 Op_Add [] 0 = Some (Inr 0)"
proof -
  have p: "(2::nat) > 1 \<longrightarrow> 0 < (2::nat) \<and> (2::nat) \<le> 2 ^ 32" by simp
  have r: "jitc_reduce fpu0 2 2 UInt32 Op_Add [] 0 = Some (Inr 0)"
    unfolding jitc_reduce_empty[OF p]
    by (simp add: jitc_reduce_create_T_def reduce_loop_def range32_def sub32_def)
  show ?thesis
    by (intro conjI jitc_prefix_sum_empty jitc_compress_empty jitc_mkperm_empty r)
qed

lemma blocks_empty:
  assumes "0 < bs" "bs \<le> 2 ^ 32"
  shows "sub32 (add32 0 bs) 1 div bs = 0"
proof (cases "bs = 2 ^ 32")
  case True
  have "sub32 (add32 0 bs) 1 < 2 ^ 32" by (simp add: sub32_def)
  then show ?thesis unfolding True by simp
next
  case False
  with assms have lt: "bs < 2 ^ 32" by simp
  then have "add32 0 bs = bs" by (simp add: add32_def)
  moreover have "sub32 bs 1 = bs - 1" using assms(1) lt by (intro sub32_id) simp_all
  ultimately show ?thesis using assms(1) by simp
qed

lemma memcpy_elems_nothing: "memcpy_elems tsize dst src 0 = dst"
  by (simp add: memcpy_elems_def)

lemma jitc_block_copy_empty:
  assumes pool: "pool_size > 1 \<longrightarrow> 0 < bs \<and> bs \<le> 2 ^ 32"
      and bsz: "block_size = 1 \<or> (2 \<le> block_size
                 \<and> make_int_type_unsigned vt \<in> {UInt8, UInt16, UInt32, UInt64, Float32, Float64})"
  shows "jitc_block_copy pool_size bs vt inp out 0 block_size = Inr out"
proof (cases "block_size = 1")
  case True
  have "mul32 0 x = 0" for x by (simp add: mul32_def)
  then show ?thesis
    unfolding True jitc_block_copy_def jitc_memcpy_async_def jitc_submit_cpu_def
    by (simp add: memcpy_elems_nothing upt_rec)
next
  case False
  with bsz have b: "2 \<le> block_size"
    and v: "make_int_type_unsigned vt \<in> {UInt8, UInt16, UInt32, UInt64, Float32, Float64}" by auto
  have c: "jitc_block_copy_create (make_int_type_unsigned vt) =
             (Inr jitc_block_copy_create_T :: fault + ('a word list \<Rightarrow> 'a word list \<Rightarrow> nat \<Rightarrow> nat \<Rightarrow> nat \<Rightarrow> 'a word list))"
    using v by auto
  have m: "mul32 0 x = 0" "add32 0 0 = 0" "sub32 0 0 = 0" for x
    by (simp_all add: mul32_def add32_def sub32_def)
  show ?thesis
  proof (cases "pool_size > 1")
    case True
    with pool have "sub32 (add32 0 bs) 1 div bs = 0" "bs \<noteq> 0" using blocks_empty[of bs] by auto
    then show ?thesis
      unfolding jitc_block_copy_def Let_def c using b True
      by (simp add: jitc_submit_cpu_def)
  next
    case False
    then show ?thesis
      unfolding jitc_block_copy_def Let_def c using b
      by (simp add: jitc_submit_cpu_def jitc_block_copy_create_T_def m upt_rec)
  qed
qed

lemma jitc_block_sum_empty:
  assumes pool: "pool_size > 1 \<longrightarrow> 0 < bs \<and> bs \<le> 2 ^ 32"
      and bsz: "block_size = 1 \<or> (2 \<le> block_size
                 \<and> make_int_type_unsigned vt \<in> {UInt8, UInt16, UInt32, UInt64, Float32, Float64})"
  shows "jitc_block_sum F pool_size bs vt inp out 0 block_size = Inr out"
proof (cases "block_size = 1")
  case True
  have "mul32 0 x = 0" for x by (simp add: mul32_def)
  then show ?thesis
    unfolding True jitc_block_sum_def jitc_memcpy_async_def jitc_submit_cpu_def
    by (simp add: memcpy_elems_nothing upt_rec)
next
  case False
  with bsz have b: "2 \<le> block_size"
    and v: "make_int_type_unsigned vt \<in> {UInt8, UInt16, UInt32, UInt64, Float32, Float64}" by auto
  from v obtain add where c: "jitc_block_sum_create F (make_int_type_unsigned vt) =
             Inr (jitc_block_sum_create_T add 0)"
    by auto
  have m: "mul32 0 x = 0" "add32 0 0 = 0" "sub32 0 0 = 0" for x
    by (simp_all add: mul32_def add32_def sub32_def)
  show ?thesis
  proof (cases "pool_size > 1")
    case True
    with pool have "sub32 (add32 0 bs) 1 div bs = 0" "bs \<noteq> 0" using blocks_empty[of bs] by auto
    then show ?thesis
      unfolding jitc_block_sum_def Let_def c using b True
      by (simp add: jitc_submit_cpu_def)
  next
    case False
    then show ?thesis
      unfolding jitc_block_sum_def Let_def c using b
      by (simp add: jitc_submit_cpu_def jitc_block_sum_create_T_def m upt_rec)
  qed
qed

text \<open>
  Claim C1, as the code has it, on the host path, for \<open>n < 2^32\<close> elements and, with a pool
  of more than one worker, a block size of the pool of at least 2 with \<open>n\<close> plus that
  block size at most \<open>2^32\<close>. A call with no elements is not a fault: \<^verbatim>\<open>jitc_prefix_sum\<close>,
  \<^verbatim>\<open>jitc_compress\<close> and \<^verbatim>\<open>jitc_mkperm\<close> return at once and leave the output as it is (the
  latter two return 0); \<^verbatim>\<open>jitc_reduce\<close> returns the reduction of the empty range when the
  type and the operation are supported; \<^verbatim>\<open>jitc_block_copy\<close> and \<^verbatim>\<open>jitc_block_sum\<close> leave
  the output as it is when the block size is 1, or at least 2 with a supported type.
  \<^verbatim>\<open>jitc_block_copy\<close> and \<^verbatim>\<open>jitc_block_sum\<close> raise for a block size of zero. An
  unsupported type or operation is raised by \<^verbatim>\<open>jitc_reduce\<close> for every \<open>n\<close>, by
  \<^verbatim>\<open>jitc_prefix_sum\<close> when \<open>n\<close> is not zero, and by \<^verbatim>\<open>jitc_block_copy\<close> and
  \<^verbatim>\<open>jitc_block_sum\<close> when the block size is at least 2.
\<close>

theorem zero_size_and_unsupported_types:
  fixes mem out :: "'a::len word list"
  assumes pool: "pool_size > 1 \<longrightarrow> 2 \<le> llvm_block_size \<and> sz + llvm_block_size \<le> 2 ^ 32"
      and szlt: "sz < 2 ^ 32"
  shows "jitc_prefix_sum F pool_size llvm_block_size vt ex inp 0 dst mem = Some (Inr mem)
       \<and> jitc_compress G pool_size llvm_block_size flags 0 idx = Some (Inr (0, idx))
       \<and> jitc_mkperm pool_size llvm_block_size keys 0 bucket_count pm = (Inr 0, pm)
       \<and> jitc_reduce F pool_size llvm_block_size vt op mem 0 =
           Some (case jitc_reduce_create F vt op of Inl e \<Rightarrow> Inl e | Inr red \<Rightarrow> Inr (red mem 0 0))
       \<and> jitc_block_copy pool_size llvm_block_size vt mem out sz 0 =
           Inl (Raise ''jit_block_copy(): block_size cannot be zero!'')
       \<and> jitc_block_sum F pool_size llvm_block_size vt mem out sz 0 =
           Inl (Raise ''jit_block_sum(): block_size cannot be zero!'')
       \<and> (vt \<in> {Void, Bool, Pointer} \<longrightarrow>
            jitc_reduce F pool_size llvm_block_size vt op mem sz =
              Some (Inl (Raise ''jit_reduce_create(): unsupported data type!'')))
       \<and> (vt \<notin> {Void, Bool, Pointer} \<and> op \<in> {Op_None, Op_Count} \<longrightarrow>
            jitc_reduce F pool_size llvm_block_size vt op mem sz =
              Some (Inl (Raise ''jit_reduce_create(): unsupported reduction type!'')))
       \<and> (0 < sz \<and> (if vt = Int32 then UInt32 else vt) \<notin> {UInt32, UInt64, Float32, Float64} \<longrightarrow>
            jitc_prefix_sum F pool_size llvm_block_size vt ex inp sz dst mem =
              Some (Inl (Raise ''jit_prefix_sum(): type is not supported!'')))
       \<and> (2 \<le> block_size
            \<and> make_int_type_unsigned vt \<notin> {UInt8, UInt16, UInt32, UInt64, Float32, Float64} \<longrightarrow>
            jitc_block_copy pool_size llvm_block_size vt mem out sz block_size =
              Inl (Raise ''jit_block_copy_create(): unsupported data type!'')
            \<and> jitc_block_sum F pool_size llvm_block_size vt mem out sz block_size =
              Inl (Raise ''jit_block_sum_create(): unsupported data type!''))
       \<and> (block_size = 1 \<or> (2 \<le> block_size
               \<and> make_int_type_unsigned vt \<in> {UInt8, UInt16, UInt32, UInt64, Float32, Float64}) \<longrightarrow>
            jitc_block_copy pool_size llvm_block_size vt mem out 0 block_size = Inr out
            \<and> jitc_block_sum F pool_size llvm_block_size vt mem out 0 block_size = Inr out)"
proof -
  have nz: "\<not> (pool_size > 1 \<and> llvm_block_size = 0)" using pool by auto
  have p0: "pool_size > 1 \<longrightarrow> 0 < llvm_block_size \<and> llvm_block_size \<le> 2 ^ 32" using pool by auto
  have r1: "vt \<in> {Void, Bool, Pointer} \<longrightarrow>
            jitc_reduce F pool_size llvm_block_size vt op mem sz =
              Some (Inl (Raise ''jit_reduce_create(): unsupported data type!''))"
  proof
    assume "vt \<in> {Void, Bool, Pointer}"
    from jitc_reduce_create_fault[OF jitc_reduce_create_unsupported_type[OF this] nz]
    show "jitc_reduce F pool_size llvm_block_size vt op mem sz =
              Some (Inl (Raise ''jit_reduce_create(): unsupported data type!''))" .
  qed
  have r2: "vt \<notin> {Void, Bool, Pointer} \<and> op \<in> {Op_None, Op_Count} \<longrightarrow>
            jitc_reduce F pool_size llvm_block_size vt op mem sz =
              Some (Inl (Raise ''jit_reduce_create(): unsupported reduction type!''))"
  proof
    assume a: "vt \<notin> {Void, Bool, Pointer} \<and> op \<in> {Op_None, Op_Count}"
    from jitc_reduce_create_fault[OF jitc_reduce_create_unsupported_op[OF conjunct1[OF a] conjunct2[OF a]] nz]
    show "jitc_reduce F pool_size llvm_block_size vt op mem sz =
              Some (Inl (Raise ''jit_reduce_create(): unsupported reduction type!''))" .
  qed
  have ps: "0 < sz \<and> (if vt = Int32 then UInt32 else vt) \<notin> {UInt32, UInt64, Float32, Float64} \<longrightarrow>
            jitc_prefix_sum F pool_size llvm_block_size vt ex inp sz dst mem =
              Some (Inl (Raise ''jit_prefix_sum(): type is not supported!''))"
  proof
    assume a: "0 < sz \<and> (if vt = Int32 then UInt32 else vt) \<notin> {UInt32, UInt64, Float32, Float64}"
    then have v: "\<not> (vt = Int32 \<or> vt = UInt32 \<or> vt = UInt64 \<or> vt = Float32 \<or> vt = Float64)"
      by (auto split: if_splits)
    from jitc_prefix_sum_unsupported[OF v conjunct1[OF a] pool szlt]
    show "jitc_prefix_sum F pool_size llvm_block_size vt ex inp sz dst mem =
              Some (Inl (Raise ''jit_prefix_sum(): type is not supported!''))" .
  qed
  have bc: "2 \<le> block_size
            \<and> make_int_type_unsigned vt \<notin> {UInt8, UInt16, UInt32, UInt64, Float32, Float64} \<longrightarrow>
            jitc_block_copy pool_size llvm_block_size vt mem out sz block_size =
              Inl (Raise ''jit_block_copy_create(): unsupported data type!'')
            \<and> jitc_block_sum F pool_size llvm_block_size vt mem out sz block_size =
              Inl (Raise ''jit_block_sum_create(): unsupported data type!'')"
  proof
    assume a: "2 \<le> block_size
            \<and> make_int_type_unsigned vt \<notin> {UInt8, UInt16, UInt32, UInt64, Float32, Float64}"
    show "jitc_block_copy pool_size llvm_block_size vt mem out sz block_size =
              Inl (Raise ''jit_block_copy_create(): unsupported data type!'')
            \<and> jitc_block_sum F pool_size llvm_block_size vt mem out sz block_size =
              Inl (Raise ''jit_block_sum_create(): unsupported data type!'')"
      using jitc_block_copy_unsupported[OF conjunct1[OF a] nz conjunct2[OF a]]
            jitc_block_sum_unsupported[OF conjunct1[OF a] nz conjunct2[OF a]]
      by (rule conjI)
  qed
  have b0: "jitc_block_copy pool_size llvm_block_size vt mem out sz 0 =
           Inl (Raise ''jit_block_copy(): block_size cannot be zero!'')"
    by (simp add: jitc_block_copy_def)
  have b1: "jitc_block_sum F pool_size llvm_block_size vt mem out sz 0 =
           Inl (Raise ''jit_block_sum(): block_size cannot be zero!'')"
    by (simp add: jitc_block_sum_def)
  have be: "block_size = 1 \<or> (2 \<le> block_size
               \<and> make_int_type_unsigned vt \<in> {UInt8, UInt16, UInt32, UInt64, Float32, Float64}) \<longrightarrow>
            jitc_block_copy pool_size llvm_block_size vt mem out 0 block_size = Inr out
            \<and> jitc_block_sum F pool_size llvm_block_size vt mem out 0 block_size = Inr out"
  proof
    assume a: "block_size = 1 \<or> (2 \<le> block_size
               \<and> make_int_type_unsigned vt \<in> {UInt8, UInt16, UInt32, UInt64, Float32, Float64})"
    show "jitc_block_copy pool_size llvm_block_size vt mem out 0 block_size = Inr out
            \<and> jitc_block_sum F pool_size llvm_block_size vt mem out 0 block_size = Inr out"
      using jitc_block_copy_empty[OF p0 a] jitc_block_sum_empty[OF p0 a] by (rule conjI)
  qed
  show ?thesis
    by (intro conjI jitc_prefix_sum_empty jitc_compress_empty jitc_mkperm_empty
          jitc_reduce_empty[OF p0] b0 b1 r1 r2 ps bc be)
qed

theorem zero_size_and_unsupported_types_witness:
  "(2::nat) \<le> 2 \<and> (3::nat) + 2 \<le> 2 ^ 32 \<and> (0::nat) < 3
   \<and> jitc_prefix_sum fpu0 2 2 Bool True 0 0 0 [1, 2, 3] = Some (Inr [1, 2, 3])
   \<and> jitc_compress fpu0 2 2 [1, 0, 1] 0 [7] = Some (Inr (0, [7]))
   \<and> jitc_mkperm 2 2 [1, 0, 1] 0 2 ([7], None) = (Inr 0, [7], None)
   \<and> jitc_reduce fpu0 2 2 Bool Op_Add [1, 2, 3] 0 =
        Some (Inl (Raise ''jit_reduce_create(): unsupported data type!''))
   \<and> jitc_block_copy 2 2 Bool [1, 2, 3 :: 32 word] [0, 0, 0, 0, 0, 0] 3 0 =
        Inl (Raise ''jit_block_copy(): block_size cannot be zero!'')
   \<and> jitc_block_sum fpu0 2 2 Bool [1, 2, 3] [0, 0, 0, 0, 0, 0] 3 0 =
        Inl (Raise ''jit_block_sum(): block_size cannot be zero!'')
   \<and> jitc_reduce fpu0 2 2 Bool Op_Add [1, 2, 3] 3 =
        Some (Inl (Raise ''jit_reduce_create(): unsupported data type!''))
   \<and> jitc_reduce fpu0 2 2 UInt32 Op_Count [1, 2, 3] 3 =
        Some (Inl (Raise ''jit_reduce_create(): unsupported reduction type!''))
   \<and> jitc_prefix_sum fpu0 2 2 Bool True 0 3 0 [1, 2, 3] =
        Some (Inl (Raise ''jit_prefix_sum(): type is not supported!''))
   \<and> jitc_block_copy 2 2 Bool [1, 2, 3 :: 32 word] [0, 0, 0, 0, 0, 0] 3 2 =
        Inl (Raise ''jit_block_copy_create(): unsupported data type!'')
   \<and> jitc_block_sum fpu0 2 2 Bool [1, 2, 3] [0, 0, 0, 0, 0, 0] 3 2 =
        Inl (Raise ''jit_block_sum_create(): unsupported data type!'')
   \<and> jitc_block_copy 2 2 UInt32 [1, 2, 3 :: 32 word] [0, 0, 0, 0, 0, 0] 0 2 = Inr [0, 0, 0, 0, 0, 0]
   \<and> jitc_block_sum fpu0 2 2 UInt32 [1, 2, 3] [0, 0, 0, 0, 0, 0] 0 2 = Inr [0, 0, 0, 0, 0, 0]"
proof -
  have pool: "(2::nat) > 1 \<longrightarrow> 2 \<le> (2::nat) \<and> (3::nat) + 2 \<le> 2 ^ 32" by simp
  have szlt: "(3::nat) < 2 ^ 32" by simp
  note T = zero_size_and_unsupported_types[OF pool szlt,
      where F = fpu0 and G = fpu0 and ex = True and inp = 0 and dst = 0 and mem = "[1, 2, 3]"
        and flags = "[1, 0, 1]" and idx = "[7]" and keys = "[1, 0, 1]" and bucket_count = 2
        and pm = "([7], None)" and out = "[0, 0, 0, 0, 0, 0]" and block_size = 2]
  note B = T[where vt = Bool and op = Op_Add]
  note U = T[where vt = UInt32 and op = Op_Count]
  have h: "(2::nat) \<le> 2 \<and> (3::nat) + 2 \<le> 2 ^ 32 \<and> (0::nat) < 3" by simp
  have c1: "jitc_prefix_sum fpu0 2 2 Bool True 0 0 0 [1, 2, 3] = Some (Inr [1, 2, 3])"
    using B by (elim conjE)
  have c2: "jitc_compress fpu0 2 2 [1, 0, 1] 0 [7] = Some (Inr (0, [7]))"
    using B by (elim conjE)
  have c3: "jitc_mkperm 2 2 [1, 0, 1] 0 2 ([7], None) = (Inr 0, [7], None)"
    using B by (elim conjE)
  have c4: "jitc_reduce fpu0 2 2 Bool Op_Add [1, 2, 3] 0 =
        Some (Inl (Raise ''jit_reduce_create(): unsupported data type!''))"
    using B by (elim conjE) simp
  have c5: "jitc_block_copy 2 2 Bool [1, 2, 3 :: 32 word] [0, 0, 0, 0, 0, 0] 3 0 =
        Inl (Raise ''jit_block_copy(): block_size cannot be zero!'')"
    using B by (elim conjE)
  have c6: "jitc_block_sum fpu0 2 2 Bool [1, 2, 3] [0, 0, 0, 0, 0, 0] 3 0 =
        Inl (Raise ''jit_block_sum(): block_size cannot be zero!'')"
    using B by (elim conjE)
  have c7: "jitc_reduce fpu0 2 2 Bool Op_Add [1, 2, 3] 3 =
        Some (Inl (Raise ''jit_reduce_create(): unsupported data type!''))"
    using B by (elim conjE) simp
  have c8: "jitc_reduce fpu0 2 2 UInt32 Op_Count [1, 2, 3] 3 =
        Some (Inl (Raise ''jit_reduce_create(): unsupported reduction type!''))"
    using U by (elim conjE) simp
  have c9: "jitc_prefix_sum fpu0 2 2 Bool True 0 3 0 [1, 2, 3] =
        Some (Inl (Raise ''jit_prefix_sum(): type is not supported!''))"
    using B by (elim conjE) simp
  have c10: "jitc_block_copy 2 2 Bool [1, 2, 3 :: 32 word] [0, 0, 0, 0, 0, 0] 3 2 =
        Inl (Raise ''jit_block_copy_create(): unsupported data type!'')
   \<and> jitc_block_sum fpu0 2 2 Bool [1, 2, 3] [0, 0, 0, 0, 0, 0] 3 2 =
        Inl (Raise ''jit_block_sum_create(): unsupported data type!'')"
    using B by (elim conjE) simp
  have c11: "jitc_block_copy 2 2 UInt32 [1, 2, 3 :: 32 word] [0, 0, 0, 0, 0, 0] 0 2 = Inr [0, 0, 0, 0, 0, 0]
   \<and> jitc_block_sum fpu0 2 2 UInt32 [1, 2, 3] [0, 0, 0, 0, 0, 0] 0 2 = Inr [0, 0, 0, 0, 0, 0]"
    using U by (elim conjE) simp
  from h c1 c2 c3 c4 c5 c6 c7 c8 c9 c10 c11 show ?thesis by (elim conjE) (intro conjI)
qed


subsection \<open>Contract violations\<close>

text \<open>
  A \<^verbatim>\<open>put()\<close> of a variable of size 5 into a loop of size 10 raises, and the two lists of
  the loop builder have grown by the rejected variable.
\<close>

theorem put_failure_mutates:
  "fst (put 2 5 (loop0, env0)) = Inl (Raise ''Loop.put(): loop variables have inconsistent sizes!'')
   \<and> m_index_p loop0 = [0, 1]
   \<and> m_index_p (fst (snd (put 2 5 (loop0, env0)))) = [0, 1, 2]
   \<and> m_index_in loop0 = [7, 8]
   \<and> m_index_in (fst (snd (put 2 5 (loop0, env0)))) = [7, 8, 0]"
  by (simp add: loop0_eq put_def env0_def Let_def)

text \<open>
  Claim C6, as the code has it. The three contract violations fail at the call with their
  message. \<^verbatim>\<open>Loop::put\<close> with an inconsistent size raises after it has appended the slot
  and the identifier of the variable to \<^verbatim>\<open>m_index_p\<close> and \<^verbatim>\<open>m_index_in\<close>; the rest of the
  loop builder and the state of the runtime are as before. \<^verbatim>\<open>jitc_memset_async\<close> of the
  CUDA backend with an element size other than 1, 2, 4 and 8 raises and leaves the stream
  as it is. \<^verbatim>\<open>jitc_mkperm\<close> with a non-empty input and no buckets ends with a fatal error
  and leaves the permutation and the offsets as they are.
\<close>

theorem contract_violations_fail:
  "(m_size l \<noteq> 0 \<and> vsize \<noteq> 1 \<and> vsize \<noteq> m_size l \<longrightarrow>
      put ptr vsize (l, env) =
        (Inl (Raise ''Loop.put(): loop variables have inconsistent sizes!''),
         (l\<lparr>m_index_p := m_index_p l @ [ptr], m_index_in := m_index_in l @ [slots env ptr]\<rparr>, env)))
   \<and> (isize \<noteq> 1 \<and> isize \<noteq> 2 \<and> isize \<noteq> 4 \<and> isize \<noteq> 8 \<longrightarrow>
        CUDA_jitc_memset_async launch_config addr n isize src s =
          (Some (Raise ''CUDAThreadState::jit_memset_async(): invalid element size (must be 1, 2, 4, or 8)!''),
           s))
   \<and> (sz \<noteq> 0 \<longrightarrow>
        jitc_mkperm pool_size llvm_block_size keys sz 0 pm =
          (Inl (Fail ''jit_mkperm(): bucket_count cannot be zero!''), pm))"
proof (intro conjI impI)
  assume "m_size l \<noteq> 0 \<and> vsize \<noteq> 1 \<and> vsize \<noteq> m_size l"
  then show "put ptr vsize (l, env) =
        (Inl (Raise ''Loop.put(): loop variables have inconsistent sizes!''),
         (l\<lparr>m_index_p := m_index_p l @ [ptr], m_index_in := m_index_in l @ [slots env ptr]\<rparr>, env))"
    by (simp add: put_def Let_def)
next
  assume "isize \<noteq> 1 \<and> isize \<noteq> 2 \<and> isize \<noteq> 4 \<and> isize \<noteq> 8"
  then show "CUDA_jitc_memset_async launch_config addr n isize src s =
          (Some (Raise ''CUDAThreadState::jit_memset_async(): invalid element size (must be 1, 2, 4, or 8)!''),
           s)"
    by (simp add: CUDA_jitc_memset_async_def)
next
  assume "sz \<noteq> 0"
  then show "jitc_mkperm pool_size llvm_block_size keys sz 0 pm =
          (Inl (Fail ''jit_mkperm(): bucket_count cannot be zero!''), pm)"
    by (rule jitc_mkperm_no_buckets)
qed

theorem contract_violations_fail_witness:
  "m_size loop0 \<noteq> 0 \<and> (5::nat) \<noteq> 1 \<and> 5 \<noteq> m_size loop0 \<and> (3::nat) \<noteq> 1 \<and> (3::nat) \<noteq> 2
   \<and> (3::nat) \<noteq> 4 \<and> (3::nat) \<noteq> 8 \<and> (4::nat) \<noteq> 0
   \<and> put 2 5 (loop0, env0) =
        (Inl (Raise ''Loop.put(): loop variables have inconsistent sizes!''),
         (loop0\<lparr>m_index_p := [0, 1, 2], m_index_in := [7, 8, 0]\<rparr>, env0))
   \<and> CUDA_jitc_memset_async (\<lambda>n. (1, 1)) 0 16 3 [1, 2, 3] stream0 =
        (Some (Raise ''CUDAThreadState::jit_memset_async(): invalid element size (must be 1, 2, 4, or 8)!''),
         stream0)
   \<and> jitc_mkperm 2 2 [1, 0, 1, 3] 4 0 ([0, 0, 0, 0], None) =
        (Inl (Fail ''jit_mkperm(): bucket_count cannot be zero!''), [0, 0, 0, 0], None)"
proof -
  note T = contract_violations_fail[where l = loop0 and vsize = 5 and ptr = 2 and env = env0
      and isize = 3 and launch_config = "\<lambda>n. (1, 1)" and addr = 0 and n = 16 and src = "[1, 2, 3]"
      and s = stream0 and sz = 4 and pool_size = 2 and llvm_block_size = 2
      and keys = "[1, 0, 1, 3]" and pm = "([0, 0, 0, 0], None)"]
  have h1: "m_size loop0 \<noteq> 0 \<and> (5::nat) \<noteq> 1 \<and> 5 \<noteq> m_size loop0" by (simp add: loop0_eq)
  have h2: "(3::nat) \<noteq> 1 \<and> (3::nat) \<noteq> 2 \<and> (3::nat) \<noteq> 4 \<and> (3::nat) \<noteq> 8" by simp
  have h3: "(4::nat) \<noteq> 0" by simp
  have a: "put 2 5 (loop0, env0) =
        (Inl (Raise ''Loop.put(): loop variables have inconsistent sizes!''),
         (loop0\<lparr>m_index_p := [0, 1, 2], m_index_in := [7, 8, 0]\<rparr>, env0))"
    using T[THEN conjunct1, THEN mp, OF h1] by (simp add: loop0_eq env0_def)
  have b: "CUDA_jitc_memset_async (\<lambda>n. (1, 1)) 0 16 3 [1, 2, 3] stream0 =
        (Some (Raise ''CUDAThreadState::jit_memset_async(): invalid element size (must be 1, 2, 4, or 8)!''),
         stream0)"
    using T[THEN conjunct2, THEN conjunct1, THEN mp, OF h2] .
  have c: "jitc_mkperm 2 2 [1, 0, 1, 3] 4 0 ([0, 0, 0, 0], None) =
        (Inl (Fail ''jit_mkperm(): bucket_count cannot be zero!''), [0, 0, 0, 0], None)"
    using T[THEN conjunct2, THEN conjunct2, THEN mp, OF h3] .
  from h1 h2 h3 a b c show ?thesis by (elim conjE) (intro conjI)
qed


subsection \<open>Sizes at which the 32-bit size arithmetic wraps around\<close>

text \<open>
  Claim C3. With a pool of two workers and blocks of 16384 elements, a mask of
  \<open>2^32 - 1\<close> bytes that are all 1 is compressed to nothing: the number of blocks
  \<^verbatim>\<open>(size + block_size - 1) / block_size\<close> wraps around to zero, no work unit runs, the
  returned count is 0 (the sum of the bytes is \<open>2^32 - 1\<close>) and the output is not written.
\<close>

theorem jitc_compress_wraps:
  "jitc_compress fpu0 2 16384 (replicate 4294967295 1) 4294967295 (replicate 4294967295 0) =
     Some (Inr (0, replicate 4294967295 0))"
  by (simp add: jitc_compress_def Let_def add32_def sub32_def)

text \<open>
  Claim C8. For an array of \<open>2^32 - 2\<close> bytes, \<^verbatim>\<open>(size + 3) / 4\<close> wraps around to zero
  words: the reduction of no words is the neutral element, so that \<^verbatim>\<open>jitc_all\<close> returns
  true on an array of zeros and \<^verbatim>\<open>jitc_any\<close> returns false on an array of ones; the
  two bytes behind the array are filled all the same.
\<close>

theorem jitc_all_any_wrap:
  "jitc_all fpu0 1 16384 (replicate 4294967296 0) 4294967294 =
     Some (Inr (True, (replicate 4294967296 0)[4294967294 := 1, 4294967295 := 1]))
   \<and> jitc_any fpu0 1 16384 (replicate 4294967296 1) 4294967294 =
     Some (Inr (False, (replicate 4294967296 1)[4294967294 := 0, 4294967295 := 0]))"
proof -
  have r: "add32 4294967294 3 div 4 = 0" "sub32 (mul32 0 4) 4294967294 = 2"
    by (simp_all add: add32_def sub32_def mul32_def)
  have f: "[0..<2] = [0, Suc 0]" by (simp add: upt_rec)
  have m: "LLVM_jitc_memset_async vs 4294967294 2 1 [v] = Inr (vs[4294967294 := v, 4294967295 := v])"
    for vs and v :: "8 word"
    by (simp add: LLVM_jitc_memset_async_def f del: One_nat_def)
  have p: "(1::nat) > 1 \<longrightarrow> 0 < (16384::nat) \<and> (16384::nat) \<le> 2 ^ 32" by simp
  have ra: "jitc_reduce fpu0 1 16384 UInt32 Op_And ws 0 = Some (Inr (- 1))" for ws
    unfolding jitc_reduce_empty[OF p]
    by (simp add: jitc_reduce_create_T_def reduce_loop_def range32_def sub32_def)
  have ro: "jitc_reduce fpu0 1 16384 UInt32 Op_Or ws 0 = Some (Inr 0)" for ws
    unfolding jitc_reduce_empty[OF p]
    by (simp add: jitc_reduce_create_T_def reduce_loop_def range32_def sub32_def)
  have s1: "store_uint32 (- 1) ! 0 AND store_uint32 (- 1) ! 1 AND store_uint32 (- 1) ! 2
              AND store_uint32 (- 1) ! 3 \<noteq> 0"
    by (simp add: store_uint32_nth byte_ones[of 0, simplified] byte_ones[of 1, simplified]
          byte_ones[of 2, simplified] byte_ones[of 3, simplified])
  have s0: "store_uint32 0 ! 0 OR store_uint32 0 ! 1 OR store_uint32 0 ! 2 OR store_uint32 0 ! 3 = 0"
    by (simp add: store_uint32_nth)
  show ?thesis
    unfolding jitc_all_def jitc_any_def Let_def r
    using s1 s0 by (simp add: m ra ro del: One_nat_def)
qed

end
